theory Spec2Isabelle
  imports Main
begin

section \<open>Text: characters, lines, splitting and joining\<close>

text \<open>
  A document is the text that \<^verbatim>\<open>Path.read_text\<close> returns and \<^verbatim>\<open>Path.write_text\<close>
  receives: a sequence of characters. Characters are modelled by \<^typ>\<open>char\<close>, that is by
  the code points below 256. Two character classes of Python matter:
  \<^item> the class \<^verbatim>\<open>\s\<close> of the \<^verbatim>\<open>re\<close> module on \<^verbatim>\<open>str\<close> patterns (code points 9-13, 28-32,
    133 and 160 in this range);
  \<^item> the white space that \<^verbatim>\<open>int()\<close> strips (code points 9-13 and 32, and 133 and 160,
    which it maps to a blank first).
\<close>

definition backslash :: char where
  "backslash = CHR 0x5C"

definition newline :: char where
  "newline = CHR 0x0A"

definition re_space :: "char \<Rightarrow> bool" where
  "re_space c = (let n = of_char c :: nat in
     (9 \<le> n \<and> n \<le> 13) \<or> (28 \<le> n \<and> n \<le> 32) \<or> n = 133 \<or> n = 160)"


text \<open>\<^verbatim>\<open>s.split(sep)\<close> for a separator of one character: never the empty list.\<close>

fun split_on :: "char \<Rightarrow> string \<Rightarrow> string list" where
  "split_on c [] = [[]]"
| "split_on c (x # xs) =
     (if x = c then [] # split_on c xs
      else (case split_on c xs of
              [] \<Rightarrow> [[x]]
            | w # ws \<Rightarrow> (x # w) # ws))"

definition split_lines :: "string \<Rightarrow> string list" where
  "split_lines content = split_on newline content"

text \<open>\<^verbatim>\<open>'\n'.join(lines)\<close>.\<close>

fun join_lines :: "string list \<Rightarrow> string" where
  "join_lines [] = []"
| "join_lines [l] = l"
| "join_lines (l # m # ls) = l @ newline # join_lines (m # ls)"

text \<open>\<^verbatim>\<open>lines[a:b]\<close> for indices that are not negative.\<close>

definition slice :: "'a list \<Rightarrow> nat \<Rightarrow> nat \<Rightarrow> 'a list" where
  "slice xs a b = drop a (take b xs)"

text \<open>
  \<^verbatim>\<open>xs[:k]\<close> and \<^verbatim>\<open>xs[k:]\<close> for any integer \<open>k\<close>: a negative index counts from the
  end, and an index out of range is clamped.
\<close>

definition py_index :: "'a list \<Rightarrow> int \<Rightarrow> nat" where
  "py_index xs k =
     (if k < 0 then nat (max (int (length xs) + k) 0)
      else min (nat k) (length xs))"

definition py_upto :: "'a list \<Rightarrow> int \<Rightarrow> 'a list" where
  "py_upto xs k = take (py_index xs k) xs"

definition py_from :: "'a list \<Rightarrow> int \<Rightarrow> 'a list" where
  "py_from xs k = drop (py_index xs k) xs"

section \<open>The patterns of \<^verbatim>\<open>parse_frames\<close>\<close>

text \<open>
  Every pattern is \<^verbatim>\<open>\s*\<close> followed by a literal that starts with a character outside
  \<^verbatim>\<open>\s\<close>, applied with \<^verbatim>\<open>re.match\<close>: the line matches when the literal follows its leading
  white space.
\<close>

definition starts_with :: "string \<Rightarrow> string \<Rightarrow> bool" where
  "starts_with lit s = (take (length lit) s = lit)"

definition match_ws :: "string \<Rightarrow> string \<Rightarrow> bool" where
  "match_ws lit line = starts_with lit (dropWhile re_space line)"

definition is_againframe :: "string \<Rightarrow> bool" where
  "is_againframe line = match_ws (backslash # ''againframe'') line"

definition is_begin_frame :: "string \<Rightarrow> bool" where
  "is_begin_frame line = match_ws (backslash # ''begin{frame}'') line"

definition is_end_frame :: "string \<Rightarrow> bool" where
  "is_end_frame line = match_ws (backslash # ''end{frame}'') line"

definition is_frame_shorthand :: "string \<Rightarrow> bool" where
  "is_frame_shorthand line = match_ws (backslash # ''frame{'') line"

definition is_comment :: "string \<Rightarrow> bool" where
  "is_comment line = match_ws ''%'' line"

section \<open>\<^verbatim>\<open>parse_frames\<close>\<close>

type_synonym frame = "nat \<times> nat \<times> string"

text \<open>The components \<^verbatim>\<open>f[0]\<close>, \<^verbatim>\<open>f[1]\<close> and \<^verbatim>\<open>f[2]\<close> of a frame tuple.\<close>

definition span_start :: "frame \<Rightarrow> nat" where
  "span_start f = fst f"

definition span_end :: "frame \<Rightarrow> nat" where
  "span_end f = fst (snd f)"

definition span_text :: "frame \<Rightarrow> string" where
  "span_text f = snd (snd f)"

text \<open>
  \<^verbatim>\<open>while start_idx > 0 and re.match(r'\s*%', lines[start_idx - 1]): start_idx -= 1\<close>
\<close>

fun back_scan :: "string list \<Rightarrow> nat \<Rightarrow> nat" where
  "back_scan lines 0 = 0"
| "back_scan lines (Suc k) =
     (if is_comment (lines ! k) then back_scan lines k else Suc k)"

text \<open>
  The inner loop that looks for the matching \<^verbatim>\<open>\end{frame}\<close>, from \<open>end_idx\<close> with the
  nesting depth \<open>depth\<close>; it returns the final \<open>end_idx\<close>.
\<close>

function find_end :: "string list \<Rightarrow> nat \<Rightarrow> nat \<Rightarrow> nat" where
  "find_end lines end_idx depth =
     (if end_idx < length lines \<and> depth > 0 then
        (if is_begin_frame (lines ! end_idx) then find_end lines (end_idx + 1) (depth + 1)
         else if is_end_frame (lines ! end_idx) then find_end lines (end_idx + 1) (depth - 1)
         else find_end lines (end_idx + 1) depth)
      else end_idx)"
  by pat_completeness auto
termination
  by (relation "measure (\<lambda>(lines, end_idx, depth). length lines - end_idx)") auto

declare find_end.simps [simp del]

lemma find_end_ge: "end_idx \<le> find_end lines end_idx depth"
proof (induction lines end_idx depth rule: find_end.induct)
  case (1 lines end_idx depth)
  then show ?case
    by (subst find_end.simps) (auto dest: Suc_leD)
qed

text \<open>The main loop, with the cursor \<open>i\<close> and the list \<open>frames\<close> built so far.\<close>

function parse_loop :: "string list \<Rightarrow> nat \<Rightarrow> frame list \<Rightarrow> frame list" where
  "parse_loop lines i frames =
     (if i < length lines then
        (let line = lines ! i in
         if is_againframe line then parse_loop lines (i + 1) frames
         else if is_begin_frame line then
           (let start_idx = back_scan lines i;
                end_idx = find_end lines (i + 1) 1;
                frame_text = join_lines (slice lines start_idx end_idx)
            in parse_loop lines end_idx (frames @ [(start_idx, end_idx, frame_text)]))
         else if is_frame_shorthand line then
           (let start_idx = back_scan lines i;
                frame_text = join_lines (slice lines start_idx (i + 1))
            in parse_loop lines (i + 1) (frames @ [(start_idx, i + 1, frame_text)]))
         else parse_loop lines (i + 1) frames)
      else frames)"
  by pat_completeness auto
termination
proof (relation "measure (\<lambda>(lines, i, frames). length lines - i)")
  fix lines :: "string list" and i :: nat and frames :: "frame list"
    and x xa xb
  assume "i < length lines" and "xa = back_scan lines i"
    and "xb = find_end lines (i + 1) 1"
  have "i + 1 \<le> find_end lines (i + 1) 1" by (rule find_end_ge)
  with \<open>i < length lines\<close> \<open>xb = find_end lines (i + 1) 1\<close>
  show "((lines, xb, frames @ [(xa, xb, x xa xb)]), lines, i, frames)
          \<in> measure (\<lambda>(lines, i, frames). length lines - i)"
    by simp
qed auto

declare parse_loop.simps [simp del]

definition parse_frames :: "string \<Rightarrow> frame list" where
  "parse_frames content = parse_loop (split_lines content) 0 []"

section \<open>\<^verbatim>\<open>parse_range\<close>\<close>

text \<open>
  The \<^verbatim>\<open>ValueError\<close>s that \<^verbatim>\<open>parse_range\<close> can raise, with the values of their messages:
  its own two, and the two of \<^verbatim>\<open>int()\<close> (the literal that is not a number; the limit on the
  number of digits and the number of digits found).
\<close>

datatype value_error =
    InvalidRangeFormat string
  | InvalidRangeOrder int int
  | InvalidLiteral string
  | ExceedsDigitLimit nat nat









section \<open>Documents on disk\<close>

text \<open>
  A path is the value that \<^verbatim>\<open>pathlib\<close> compares with \<^verbatim>\<open>==\<close>; two different paths are taken
  to name two different files. The file system maps the paths of the existing files to their
  text, and records every \<^verbatim>\<open>write_text\<close> in the order of the calls.
\<close>

type_synonym path = string

record filesystem =
  files :: "path \<rightharpoonup> string"
  writes :: "path list"

definition write_text :: "path \<Rightarrow> string \<Rightarrow> filesystem \<Rightarrow> filesystem" where
  "write_text p content fs = fs\<lparr>files := (files fs)(p \<mapsto> content), writes := writes fs @ [p]\<rparr>"

text \<open>
  How a run ends: \<^verbatim>\<open>sys.exit\<close> after an error message (\<open>Exit\<close>, with the values that the
  message prints), an exception that nothing catches (\<open>Raised\<close>), or a normal return
  (\<open>Done\<close>, with the lines printed). A printed file name is kept as the path.
\<close>

datatype exit_error =
    InputFileMissing path
  | MissingFrom
  | MissingTo
  | BadRange value_error
  | NoFramesFound path
  | FromOutOfRange int nat
  | ToOutOfRange int nat
  | OutputFileMissing path

datatype py_exception = FileNotFoundError path | IndexError

datatype range_str = Single int | Span int int

datatype message =
    Listing path "(nat \<times> string) list"
  | NoFramesIn path
  | Deleted range_str path
  | Inserted range_str int path
  | Removed range_str path
  | NothingToDo
  | Moved range_str int path

datatype outcome = Exit exit_error | Raised py_exception | Done "message list"

text \<open>
  \<^verbatim>\<open>f"{from_positions[0]}-{from_positions[-1]}" if len(from_positions) > 1 else str(from_positions[0])\<close>;
  on the empty list \<^verbatim>\<open>from_positions[0]\<close> raises \<^verbatim>\<open>IndexError\<close>, here \<open>None\<close>.
\<close>

fun from_range_str :: "int list \<Rightarrow> range_str option" where
  "from_range_str [] = None"
| "from_range_str [p] = Some (Single p)"
| "from_range_str (p # q # ps) = Some (Span p (last (q # ps)))"

text \<open>The validation loop: the first position outside \<open>1..len(frames)\<close>, if any.\<close>

definition first_out_of_range :: "frame list \<Rightarrow> int list \<Rightarrow> int option" where
  "first_out_of_range frames from_positions =
     find (\<lambda>pos. pos < 1 \<or> pos > int (length frames)) from_positions"

text \<open>
  The removal loop, over the positions in the order given (the callers pass
  \<^verbatim>\<open>reversed(from_positions)\<close>); the positions have been validated.
\<close>

fun remove_spans :: "frame list \<Rightarrow> string list \<Rightarrow> int list \<Rightarrow> string list" where
  "remove_spans frames lines [] = lines"
| "remove_spans frames lines (pos # rest) =
     (case frames ! nat (pos - 1) of
        (start_idx, end_idx, _) \<Rightarrow>
          remove_spans frames (take start_idx lines @ drop end_idx lines) rest)"


definition delete_frames :: "path \<Rightarrow> int list \<Rightarrow> filesystem \<Rightarrow> outcome \<times> filesystem" where
  "delete_frames input_file from_positions fs =
     (case files fs input_file of
        None \<Rightarrow> (Raised (FileNotFoundError input_file), fs)
      | Some content \<Rightarrow>
          (let frames = parse_frames content in
           if frames = [] then (Exit (NoFramesFound input_file), fs)
           else (case first_out_of_range frames from_positions of
                   Some pos \<Rightarrow> (Exit (FromOutOfRange pos (length frames)), fs)
                 | None \<Rightarrow>
                     (let lines = remove_spans frames (split_lines content) (rev from_positions);
                          fs' = write_text input_file (join_lines lines) fs
                      in (case from_range_str from_positions of
                            None \<Rightarrow> (Raised IndexError, fs')
                          | Some r \<Rightarrow> (Done [Deleted r input_file], fs'))))))"

subsection \<open>The position algebra of \<^verbatim>\<open>move_frames\<close>\<close>

text \<open>
  The cross-file insertion offset:
  \<^verbatim>\<open>dest_frames[to_pos - 1][0]\<close> if \<^verbatim>\<open>to_pos <= len(dest_frames)\<close>, else
  \<^verbatim>\<open>dest_frames[-1][1] if dest_frames else len(dest_lines)\<close>. The position has been
  validated: \<open>1 \<le> to_pos\<close>.
\<close>

definition cross_insert_at :: "frame list \<Rightarrow> string list \<Rightarrow> int \<Rightarrow> nat" where
  "cross_insert_at dest_frames dest_lines to_pos =
     (if to_pos \<le> int (length dest_frames) then span_start (dest_frames ! nat (to_pos - 1))
      else if dest_frames \<noteq> [] then span_end (last dest_frames)
      else length dest_lines)"

text \<open>
  The \<^verbatim>\<open>for i, (s, e, _) in enumerate(frames)\<close> loop of the in-place move, from the index
  \<open>i\<close> on: \<open>Some adj_s\<close> when it leaves by \<^verbatim>\<open>break\<close>, \<open>None\<close> when it runs to the end
  (and the \<^verbatim>\<open>else\<close> of the loop is taken).
\<close>

fun find_insert ::
  "frame list \<Rightarrow> int \<Rightarrow> int list \<Rightarrow> int \<Rightarrow> int \<Rightarrow> int \<Rightarrow> int \<Rightarrow> int option" where
  "find_insert [] i from_positions remaining_frame_idx to_pos first_frame_start removed_count = None"
| "find_insert ((s, e, t) # rest) i from_positions remaining_frame_idx to_pos
       first_frame_start removed_count =
     (if (i + 1) \<in> set from_positions then
        find_insert rest (i + 1) from_positions remaining_frame_idx to_pos
          first_frame_start removed_count
      else
        (let remaining_frame_idx = remaining_frame_idx + 1;
             adj_s = (if int s > first_frame_start then int s - removed_count else int s)
         in if remaining_frame_idx = to_pos then Some adj_s
            else find_insert rest (i + 1) from_positions remaining_frame_idx to_pos
                   first_frame_start removed_count))"

text \<open>The loop of the \<^verbatim>\<open>else\<close> branch, which computes \<^verbatim>\<open>last_remaining\<close>.\<close>

fun last_remaining_loop ::
  "frame list \<Rightarrow> int \<Rightarrow> int list \<Rightarrow> int \<Rightarrow> int \<Rightarrow> int option \<Rightarrow> int option" where
  "last_remaining_loop [] i from_positions first_frame_start removed_count last_remaining =
     last_remaining"
| "last_remaining_loop ((s, e, t) # rest) i from_positions first_frame_start removed_count
       last_remaining =
     (if (i + 1) \<notin> set from_positions then
        (let adj_e = (if int e > first_frame_start then int e - removed_count else int e)
         in last_remaining_loop rest (i + 1) from_positions first_frame_start removed_count
              (Some adj_e))
      else last_remaining_loop rest (i + 1) from_positions first_frame_start removed_count
             last_remaining)"

definition same_file_insert_at ::
  "frame list \<Rightarrow> int list \<Rightarrow> int \<Rightarrow> int \<Rightarrow> int \<Rightarrow> string list \<Rightarrow> int" where
  "same_file_insert_at frames from_positions to_pos first_frame_start removed_count
       lines_without_moved =
     (case find_insert frames 0 from_positions 0 to_pos first_frame_start removed_count of
        Some adj_s \<Rightarrow> adj_s
      | None \<Rightarrow>
          if frames \<noteq> [] then
            (case last_remaining_loop frames 0 from_positions first_frame_start removed_count
                    None of
               None \<Rightarrow> int (length lines_without_moved)
             | Some last_remaining \<Rightarrow>
                 if last_remaining \<noteq> 0 then last_remaining
                 else int (length lines_without_moved))
          else 0)"

subsection \<open>\<^verbatim>\<open>move_frames\<close>\<close>

text \<open>
  The lines written by the in-place branch (\<^verbatim>\<open>lines = content.split('\n')\<close> to
  \<^verbatim>\<open>final_lines\<close>): the run from the start of the first selected frame to the end of the last
  one is cut out, and the combined text of the selected frames is put in at \<open>insert_at\<close>.
\<close>

definition in_place_final_lines ::
  "frame list \<Rightarrow> int list \<Rightarrow> int \<Rightarrow> string list \<Rightarrow> string \<Rightarrow> string list" where
  "in_place_final_lines frames from_positions to_pos lines combined_frame_text =
     (let first_frame_start = span_start (frames ! nat (from_positions ! 0 - 1));
          last_frame_end = span_end (frames ! nat (last from_positions - 1));
          lines_without_moved = take first_frame_start lines @ drop last_frame_end lines;
          removed_count = int last_frame_end - int first_frame_start;
          insert_at = same_file_insert_at frames from_positions to_pos
                        (int first_frame_start) removed_count lines_without_moved
      in py_upto lines_without_moved insert_at
           @ split_lines combined_frame_text
           @ py_from lines_without_moved insert_at)"

text \<open>The lines written to the destination by the cross-file branch.\<close>

definition cross_new_dest_lines ::
  "frame list \<Rightarrow> string list \<Rightarrow> int \<Rightarrow> string \<Rightarrow> string list" where
  "cross_new_dest_lines dest_frames dest_lines to_pos combined_frame_text =
     (let insert_at = cross_insert_at dest_frames dest_lines to_pos
      in take insert_at dest_lines @ split_lines combined_frame_text
           @ drop insert_at dest_lines)"

definition move_frames ::
  "path \<Rightarrow> int list \<Rightarrow> int \<Rightarrow> path option \<Rightarrow> bool \<Rightarrow> filesystem \<Rightarrow> outcome \<times> filesystem" where
  "move_frames input_file from_positions to_pos output_file copy_mode fs =
     (case files fs input_file of
        None \<Rightarrow> (Raised (FileNotFoundError input_file), fs)
      | Some content \<Rightarrow>
     (let frames = parse_frames content in
      if frames = [] then (Exit (NoFramesFound input_file), fs)
      else (case first_out_of_range frames from_positions of
        Some pos \<Rightarrow> (Exit (FromOutOfRange pos (length frames)), fs)
      | None \<Rightarrow>
     (let frame_texts = map (\<lambda>pos. span_text (frames ! nat (pos - 1))) from_positions;
          combined_frame_text = join_lines frame_texts
      in (case from_range_str from_positions of
        None \<Rightarrow> (Raised IndexError, fs)
      | Some from_range \<Rightarrow>
     (if output_file \<noteq> None \<and> output_file \<noteq> Some input_file then
        (let out = the output_file in
         case files fs out of
           None \<Rightarrow> (Exit (OutputFileMissing out), fs)
         | Some dest_content \<Rightarrow>
        (let dest_frames = parse_frames dest_content in
         if to_pos < 1 \<or> to_pos > int (length dest_frames) + 1 then
           (Exit (ToOutOfRange to_pos (length dest_frames + 1)), fs)
         else
        (let dest_lines = split_lines dest_content;
             new_dest_lines = cross_new_dest_lines dest_frames dest_lines to_pos
                                combined_frame_text;
             fs1 = write_text out (join_lines new_dest_lines) fs
         in if \<not> copy_mode then
              (let lines = remove_spans frames (split_lines content) (rev from_positions);
                   fs2 = write_text input_file (join_lines lines) fs1
               in (Done [Inserted from_range to_pos out, Removed from_range input_file], fs2))
            else (Done [Inserted from_range to_pos out], fs1))))
      else
        (if to_pos < 1 \<or> to_pos > int (length frames) then
           (Exit (ToOutOfRange to_pos (length frames)), fs)
         else if length from_positions = 1 \<and> from_positions ! 0 = to_pos then
           (Done [NothingToDo], fs)
         else
        (let final_lines = in_place_final_lines frames from_positions to_pos
                             (split_lines content) combined_frame_text
         in (Done [Moved from_range to_pos input_file],
             write_text input_file (join_lines final_lines) fs)))))))))"

subsection \<open>\<^verbatim>\<open>main\<close>, after the command line has been parsed\<close>



section \<open>Specification-side notions\<close>

text \<open>The decimal numeral of a natural number, as \<^verbatim>\<open>str(n)\<close> writes it.\<close>

definition digit_char :: "nat \<Rightarrow> char" where
  "digit_char d = char_of (48 + d)"

fun decimal :: "nat \<Rightarrow> string" where
  "decimal n = (if n < 10 then [digit_char n] else decimal (n div 10) @ [digit_char (n mod 10)])"

declare decimal.simps [simp del]



text \<open>
  What one round of the main loop appends when the cursor is at the line \<open>j\<close>: the line
  opens a frame (it is not an \<^verbatim>\<open>\againframe\<close> line, and it is a \<^verbatim>\<open>\begin{frame}\<close> line or
  else a \<^verbatim>\<open>\frame{\<close> line), and \<open>f\<close> is the tuple built there.
\<close>

definition frame_at :: "string list \<Rightarrow> nat \<Rightarrow> frame \<Rightarrow> bool" where
  "frame_at lines j f =
     (j < length lines \<and> \<not> is_againframe (lines ! j) \<and>
      (if is_begin_frame (lines ! j)
       then f = (back_scan lines j, find_end lines (j + 1) 1,
                 join_lines (slice lines (back_scan lines j) (find_end lines (j + 1) 1)))
       else is_frame_shorthand (lines ! j) \<and>
            f = (back_scan lines j, j + 1, join_lines (slice lines (back_scan lines j) (j + 1)))))"

definition is_blank :: "string \<Rightarrow> bool" where
  "is_blank line = (\<forall>c \<in> set line. re_space c)"

text \<open>
  The nesting depth inside a \<^verbatim>\<open>\begin{frame}\<close> block after the lines \<open>body\<close> that follow its
  opening line: 1 for the opening line, plus one for every further opening line and minus
  one for every closing line.
\<close>

definition nesting_change :: "string \<Rightarrow> int" where
  "nesting_change l = (if is_begin_frame l then 1 else if is_end_frame l then - 1 else 0)"

definition depth_after :: "string list \<Rightarrow> int" where
  "depth_after body = 1 + sum_list (map nesting_change body)"

text \<open>
  The lines \<open>body\<close> are the rest of a \<^verbatim>\<open>begin\<close>/\<^verbatim>\<open>end\<close> block after its opening line: the
  nesting depth is positive before every line of the body and zero after the last, which
  is therefore the line that closes the block.
\<close>

definition closed_body :: "string list \<Rightarrow> bool" where
  "closed_body body =
     (depth_after body = 0 \<and> (\<forall>k \<in> {0..<length body}. 0 < depth_after (take k body)))"

text \<open>
  A piece of a document between whose ends no block is open: a whole \<^verbatim>\<open>begin\<close>/\<^verbatim>\<open>end\<close>
  block, or one line that does not open such a block.
\<close>

definition piece :: "string list \<Rightarrow> bool" where
  "piece p =
     (case p of
        [] \<Rightarrow> False
      | l # body \<Rightarrow> if is_begin_frame l then closed_body body else body = [])"

subsection \<open>The parser on lists\<close>

text \<open>
  The same parser, read on lists instead of indices: \<open>scan_end\<close> counts the lines that the
  inner loop passes, \<open>trailing_comments\<close> is the run of comment lines at the end of the lines
  passed so far, and \<open>frames_from done rest\<close> is what the main loop appends once it has
  passed the lines \<open>done\<close> and has the lines \<open>rest\<close> ahead.
\<close>

fun scan_end :: "string list \<Rightarrow> nat \<Rightarrow> nat" where
  "scan_end [] depth = 0"
| "scan_end (l # ls) depth =
     (if depth = 0 then 0
      else Suc (scan_end ls (if is_begin_frame l then depth + 1
                             else if is_end_frame l then depth - 1 else depth)))"

definition trailing_comments :: "string list \<Rightarrow> string list" where
  "trailing_comments done = rev (takeWhile is_comment (rev done))"

definition before_comments :: "string list \<Rightarrow> string list" where
  "before_comments done = rev (dropWhile is_comment (rev done))"

function frames_from :: "string list \<Rightarrow> string list \<Rightarrow> frame list" where
  "frames_from done [] = []"
| "frames_from done (l # ls) =
     (if is_againframe l then frames_from (done @ [l]) ls
      else if is_begin_frame l then
        (let n = scan_end ls 1
         in (length done - length (trailing_comments done), length done + 1 + n,
             join_lines (trailing_comments done @ l # take n ls))
            # frames_from (done @ l # take n ls) (drop n ls))
      else if is_frame_shorthand l then
        (length done - length (trailing_comments done), length done + 1,
         join_lines (trailing_comments done @ [l]))
        # frames_from (done @ [l]) ls
      else frames_from (done @ [l]) ls)"
  by pat_completeness auto
termination
  by (relation "measure (\<lambda>(done, rest). length rest)") auto

declare frames_from.simps(2) [simp del]

text \<open>Lines that the main loop passes without opening a frame.\<close>

definition quiet :: "string list \<Rightarrow> bool" where
  "quiet gap = (\<forall>l \<in> set gap. is_againframe l \<or> (\<not> is_begin_frame l \<and> \<not> is_frame_shorthand l))"

text \<open>
  The lines \<open>block\<close> are those of one frame, from its opening line on, when the lines
  \<open>rest\<close> follow.
\<close>

definition is_block :: "string list \<Rightarrow> string list \<Rightarrow> bool" where
  "is_block block rest =
     (\<exists>l ls. block = l # ls \<and> \<not> is_againframe l \<and>
        (if is_begin_frame l then scan_end (ls @ rest) 1 = length ls
         else is_frame_shorthand l \<and> ls = []))"

section \<open>Example documents\<close>

definition shorthand_frame :: "string \<Rightarrow> string" where
  "shorthand_frame x = backslash # ''frame{'' @ x @ ''}''"

definition section_line :: string where
  "section_line = backslash # ''section{X}''"

text \<open>Three one-line frames, with a sectioning command between the first two.\<close>

definition three_frames_doc :: string where
  "three_frames_doc = join_lines
     [shorthand_frame ''A'', section_line, shorthand_frame ''B'', shorthand_frame ''C'']"

definition one_file :: filesystem where
  "one_file = \<lparr>files = [''a.tex'' \<mapsto> three_frames_doc], writes = []\<rparr>"

definition two_files :: filesystem where
  "two_files =
     \<lparr>files = [''a.tex'' \<mapsto> three_frames_doc, ''b.tex'' \<mapsto> ''x''], writes = []\<rparr>"

definition begin_line :: string where
  "begin_line = backslash # ''begin{frame}''"

definition end_line :: string where
  "end_line = backslash # ''end{frame}''"

text \<open>
  A comment, a blank line, two comments and a frame in the \<^verbatim>\<open>begin\<close>/\<^verbatim>\<open>end\<close> form, then a
  comment and a frame in the one-line form.
\<close>

definition commented_lines :: "string list" where
  "commented_lines =
     [''% old'', '''', ''% c1'', ''% c2'', begin_line, ''x'', end_line, ''% s'',
      shorthand_frame ''B'']"

definition commented_doc :: string where
  "commented_doc = join_lines commented_lines"

text \<open>A frame that holds a nested \<^verbatim>\<open>begin\<close>/\<^verbatim>\<open>end\<close> pair, and a line after it.\<close>

definition nested_lines :: "string list" where
  "nested_lines = [begin_line, begin_line, ''x'', end_line, ''y'', end_line, ''z'']"

definition nested_doc :: string where
  "nested_doc = join_lines nested_lines"

text \<open>
  Four frames: a one-line frame with a comment, a frame in the \<^verbatim>\<open>begin\<close>/\<^verbatim>\<open>end\<close> form, a
  sectioning command, and two one-line frames, the second with a comment.
\<close>

definition four_frames_lines :: "string list" where
  "four_frames_lines =
     [''% a'', shorthand_frame ''A'', begin_line, ''x'', end_line, section_line,
      shorthand_frame ''C'', ''% d'', shorthand_frame ''D'']"

definition four_frames_doc :: string where
  "four_frames_doc = join_lines four_frames_lines"

definition four_frames_file :: filesystem where
  "four_frames_file = \<lparr>files = [''a.tex'' \<mapsto> four_frames_doc], writes = []\<rparr>"

text \<open>
  The frame A, a comment, a blank line, and the frames B and C: the blank line separates
  the comment from the frame B.
\<close>

definition separated_comment_lines :: "string list" where
  "separated_comment_lines =
     [shorthand_frame ''A'', ''% note'', '''', shorthand_frame ''B'', shorthand_frame ''C'']"

definition separated_comment_doc :: string where
  "separated_comment_doc = join_lines separated_comment_lines"

definition separated_comment_file :: filesystem where
  "separated_comment_file = \<lparr>files = [''a.tex'' \<mapsto> separated_comment_doc], writes = []\<rparr>"

text \<open>
  A one-line frame, a comment, a frame that holds a nested \<^verbatim>\<open>begin\<close>/\<^verbatim>\<open>end\<close> pair, and a
  line after it.
\<close>

definition framed_nested_lines :: "string list" where
  "framed_nested_lines =
     [shorthand_frame ''A'', ''% c'', begin_line, begin_line, ''x'', end_line, ''y'',
      end_line, ''z'']"

definition framed_nested_doc :: string where
  "framed_nested_doc = join_lines framed_nested_lines"


section \<open>Basic facts\<close>

subsection \<open>Splitting and joining\<close>

lemma split_on_not_Nil: "split_on c s \<noteq> []"
  by (induction s) (auto split: list.splits)

lemma split_on_no_sep: "c \<notin> set s \<Longrightarrow> split_on c s = [s]"
  by (induction s) auto

lemma split_on_append_sep: "c \<notin> set l \<Longrightarrow> split_on c (l @ c # s) = l # split_on c s"
  by (induction l) auto

lemma split_on_no_sep_in: "l \<in> set (split_on c s) \<Longrightarrow> c \<notin> set l"
  by (induction s arbitrary: l) (auto split: list.splits if_splits)

lemma split_lines_not_Nil: "split_lines s \<noteq> []"
  by (simp add: split_lines_def split_on_not_Nil)

lemma split_lines_single: "newline \<notin> set l \<Longrightarrow> split_lines l = [l]"
  by (simp add: split_lines_def split_on_no_sep)

lemma split_lines_no_newline: "l \<in> set (split_lines s) \<Longrightarrow> newline \<notin> set l"
  by (simp add: split_lines_def split_on_no_sep_in)

lemma split_join_lines:
  "ls \<noteq> [] \<Longrightarrow> \<forall>l \<in> set ls. newline \<notin> set l \<Longrightarrow> split_lines (join_lines ls) = ls"
proof (induction ls rule: join_lines.induct)
  case 1
  then show ?case by simp
next
  case (2 l)
  then show ?case by (simp add: split_lines_def split_on_no_sep)
next
  case (3 l m ls)
  then show ?case by (simp add: split_lines_def split_on_append_sep)
qed

lemma join_split_on: "join_lines (split_on newline s) = s"
proof (induction s)
  case Nil
  then show ?case by simp
next
  case (Cons x xs)
  show ?case
  proof (cases "split_on newline xs")
    case Nil
    then show ?thesis using split_on_not_Nil by blast
  next
    case (Cons w ws)
    with Cons.IH show ?thesis by (cases ws) auto
  qed
qed

lemma join_split_lines: "join_lines (split_lines s) = s"
  by (simp add: split_lines_def join_split_on)

lemma py_upto_nat: "0 \<le> k \<Longrightarrow> py_upto xs k = take (nat k) xs"
  by (simp add: py_upto_def py_index_def min_def)

lemma py_from_nat: "0 \<le> k \<Longrightarrow> py_from xs k = drop (nat k) xs"
  by (simp add: py_from_def py_index_def min_def)

subsection \<open>Validation and writing\<close>

lemma first_out_of_range_None:
  "first_out_of_range frames ps = None \<longleftrightarrow>
     (\<forall>p \<in> set ps. 1 \<le> p \<and> p \<le> int (length frames))"
  by (auto simp: first_out_of_range_def find_None_iff)

lemma first_out_of_range_Some:
  "first_out_of_range frames ps = Some pos \<Longrightarrow>
     pos \<in> set ps \<and> (pos < 1 \<or> int (length frames) < pos)"
  by (auto simp: first_out_of_range_def find_Some_iff)

lemma from_range_str_Some: "ps \<noteq> [] \<Longrightarrow> \<exists>r. from_range_str ps = Some r"
  by (cases ps rule: from_range_str.cases) auto

lemma write_text_files: "files (write_text p c fs) = (files fs)(p \<mapsto> c)"
  by (simp add: write_text_def)

lemma write_text_writes: "writes (write_text p c fs) = writes fs @ [p]"
  by (simp add: write_text_def)

subsection \<open>The example documents\<close>

lemma not_space_backslash: "\<not> re_space backslash"
  by (simp add: re_space_def backslash_def)

lemmas line_class_defs = is_againframe_def is_begin_frame_def is_end_frame_def
  is_frame_shorthand_def is_comment_def match_ws_def starts_with_def

lemma shorthand_frame_class:
  "\<not> is_againframe (shorthand_frame x)" "\<not> is_begin_frame (shorthand_frame x)"
  "is_frame_shorthand (shorthand_frame x)" "\<not> is_comment (shorthand_frame x)"
  by (simp_all add: line_class_defs shorthand_frame_def not_space_backslash)
     (simp_all add: backslash_def)

lemma section_line_class:
  "\<not> is_againframe section_line" "\<not> is_begin_frame section_line"
  "\<not> is_frame_shorthand section_line" "\<not> is_comment section_line"
  by (simp_all add: line_class_defs section_line_def not_space_backslash)
     (simp_all add: backslash_def)

lemma shorthand_frame_no_newline:
  "newline \<notin> set (shorthand_frame ''A'')" "newline \<notin> set (shorthand_frame ''B'')"
  "newline \<notin> set (shorthand_frame ''C'')" "newline \<notin> set (shorthand_frame ''D'')"
  by (simp_all add: shorthand_frame_def newline_def backslash_def)

lemma three_frames_doc_lines:
  "split_lines three_frames_doc =
     [shorthand_frame ''A'', section_line, shorthand_frame ''B'', shorthand_frame ''C'']"
  by (simp add: three_frames_doc_def split_lines_def shorthand_frame_def section_line_def
        newline_def backslash_def)

lemma three_frames_doc_parse:
  "parse_frames three_frames_doc =
     [(0, 1, shorthand_frame ''A''), (2, 3, shorthand_frame ''B''),
      (3, 4, shorthand_frame ''C'')]"
  by (simp add: parse_frames_def three_frames_doc_lines parse_loop.simps shorthand_frame_class
        section_line_class slice_def Let_def)

lemma three_frames_doc_length: "int (length (parse_frames three_frames_doc)) = 3"
  by (simp add: three_frames_doc_parse)

lemma plain_x_parse: "parse_frames ''x'' = []" "split_lines ''x'' = [''x'']"
  by (simp_all add: parse_frames_def split_lines_def newline_def parse_loop.simps
        line_class_defs re_space_def backslash_def)

lemma one_file_a: "files one_file ''a.tex'' = Some three_frames_doc"
  by (simp add: one_file_def)

lemma two_files_a: "files two_files ''a.tex'' = Some three_frames_doc"
  and two_files_b: "files two_files ''b.tex'' = Some ''x''"
  by (simp_all add: two_files_def)

section \<open>The claims\<close>

text \<open>
  C6. A same-file move of a single block to the position it already has changes nothing:
  no file is written (the file system, with its record of writes, is the one before) and
  the run ends normally with the notice that there is nothing to do.
\<close>

theorem move_single_to_own_position_noop:
  assumes "files fs input_file = Some content"
    and "1 \<le> p" and "p \<le> int (length (parse_frames content))"
    and "output_file = None \<or> output_file = Some input_file"
  shows "move_frames input_file [p] p output_file copy_mode fs = (Done [NothingToDo], fs)"
proof -
  have ne: "parse_frames content \<noteq> []" using assms(2,3) by auto
  have ok: "first_out_of_range (parse_frames content) [p] = None"
    using assms(2,3) by (simp add: first_out_of_range_None)
  show ?thesis
    using assms ne ok by (auto simp: move_frames_def Let_def)
qed

theorem move_single_to_own_position_noop_witness:
  "files one_file ''a.tex'' = Some three_frames_doc
   \<and> (1::int) \<le> 2 \<and> (2::int) \<le> int (length (parse_frames three_frames_doc))
   \<and> move_frames ''a.tex'' [2] 2 None False one_file = (Done [NothingToDo], one_file)"
proof -
  have b: "(2::int) \<le> int (length (parse_frames three_frames_doc))"
    by (simp add: three_frames_doc_length)
  show ?thesis
    using one_file_a b move_single_to_own_position_noop [OF one_file_a _ b, of None False]
    by simp
qed

text \<open>
  C10. A cross-file copy never writes the source document: whatever the outcome, the
  source keeps its text, no write after the start of the run names it, every file other
  than the destination keeps its text, and a run that succeeds writes the destination once.
\<close>

theorem cross_file_copy_keeps_source:
  assumes "out \<noteq> input_file"
    and "move_frames input_file from_positions to_pos (Some out) True fs = (res, fs')"
  shows "files fs' input_file = files fs input_file
       \<and> input_file \<notin> set (drop (length (writes fs)) (writes fs'))
       \<and> (\<forall>p. p \<noteq> out \<longrightarrow> files fs' p = files fs p)
       \<and> (fs' = fs \<or> writes fs' = writes fs @ [out])
       \<and> (\<forall>msgs. res = Done msgs \<longrightarrow> writes fs' = writes fs @ [out])"
  using assms
  by (auto simp: move_frames_def Let_def write_text_files write_text_writes
           split: option.splits if_splits)

lemma copy_to_b_result:
  "move_frames ''a.tex'' [1] 1 (Some ''b.tex'') True two_files =
     (Done [Inserted (Single 1) 1 ''b.tex''],
      write_text ''b.tex'' (join_lines [''x'', shorthand_frame ''A'']) two_files)"
proof -
  have t: "map (\<lambda>pos. span_text (parse_frames three_frames_doc ! nat (pos - 1))) [1]
      = [shorthand_frame ''A'']"
    by (simp add: three_frames_doc_parse span_text_def)
  have v: "first_out_of_range (parse_frames three_frames_doc) [1] = None"
    by (simp add: first_out_of_range_None three_frames_doc_length)
  have n: "parse_frames three_frames_doc \<noteq> []"
    by (simp add: three_frames_doc_parse)
  have d: "cross_new_dest_lines [] [''x''] 1 (join_lines [shorthand_frame ''A''])
      = [''x'', shorthand_frame ''A'']"
    by (simp add: cross_new_dest_lines_def cross_insert_at_def split_lines_single
          shorthand_frame_no_newline)
  show ?thesis
    unfolding move_frames_def Let_def two_files_a t v option.case
    by (simp add: n two_files_b plain_x_parse d del: join_lines.simps)
qed

theorem cross_file_copy_keeps_source_witness:
  "''b.tex'' \<noteq> ''a.tex''
   \<and> move_frames ''a.tex'' [1] 1 (Some ''b.tex'') True two_files =
       (Done [Inserted (Single 1) 1 ''b.tex''],
        write_text ''b.tex'' (join_lines [''x'', shorthand_frame ''A'']) two_files)
   \<and> files (write_text ''b.tex'' (join_lines [''x'', shorthand_frame ''A'']) two_files) ''a.tex''
       = files two_files ''a.tex''
   \<and> writes (write_text ''b.tex'' (join_lines [''x'', shorthand_frame ''A'']) two_files)
       = writes two_files @ [''b.tex'']"
proof -
  have ne: "''b.tex'' \<noteq> ''a.tex''" by simp
  from cross_file_copy_keeps_source [OF ne copy_to_b_result]
  have "files (write_text ''b.tex'' (join_lines [''x'', shorthand_frame ''A'']) two_files)
          ''a.tex'' = files two_files ''a.tex''"
    and "writes (write_text ''b.tex'' (join_lines [''x'', shorthand_frame ''A'']) two_files)
          = writes two_files @ [''b.tex'']"
    by blast+
  with ne copy_to_b_result show ?thesis by (simp only: simp_thms)
qed

text \<open>
  C3, as amended. In a same-file move with source positions that pass validation, the
  destination position \<open>|index| + 1\<close> is not accepted: the run exits with the out-of-range
  error that names the position and the bound \<open>|index|\<close>, and nothing is written. The same
  holds of every destination below 1 or above \<open>|index|\<close>. The destinations \<open>1..|index|\<close>
  are accepted: the run ends normally with its messages. So the run ends with an error
  exit exactly when the destination is outside \<open>1..|index|\<close>.
\<close>

theorem same_file_append_position_rejected:
  assumes "files fs input_file = Some content"
    and "parse_frames content \<noteq> []"
    and "\<forall>p \<in> set from_positions. 1 \<le> p \<and> p \<le> int (length (parse_frames content))"
    and "from_positions \<noteq> []"
    and "output_file = None \<or> output_file = Some input_file"
  shows "(to_pos = int (length (parse_frames content)) + 1 \<longrightarrow>
           move_frames input_file from_positions to_pos output_file copy_mode fs
             = (Exit (ToOutOfRange to_pos (length (parse_frames content))), fs))
       \<and> (to_pos < 1 \<or> int (length (parse_frames content)) < to_pos \<longrightarrow>
           move_frames input_file from_positions to_pos output_file copy_mode fs
             = (Exit (ToOutOfRange to_pos (length (parse_frames content))), fs))
       \<and> (1 \<le> to_pos \<and> to_pos \<le> int (length (parse_frames content)) \<longrightarrow>
           (\<exists>msgs fs'. move_frames input_file from_positions to_pos output_file copy_mode fs
             = (Done msgs, fs')))
       \<and> ((\<exists>e fs'. move_frames input_file from_positions to_pos output_file copy_mode fs
             = (Exit e, fs'))
          \<longleftrightarrow> to_pos < 1 \<or> int (length (parse_frames content)) < to_pos)"
proof -
  have ok: "first_out_of_range (parse_frames content) from_positions = None"
    using assms(3) by (simp add: first_out_of_range_None)
  obtain r where r: "from_range_str from_positions = Some r"
    using assms(4) from_range_str_Some by blast
  have out: "move_frames input_file from_positions to_pos output_file copy_mode fs
             = (Exit (ToOutOfRange to_pos (length (parse_frames content))), fs)"
    if "to_pos < 1 \<or> int (length (parse_frames content)) < to_pos"
    using assms(1,2,5) ok r that by (auto simp: move_frames_def Let_def)
  have inside: "\<exists>msgs fs'. move_frames input_file from_positions to_pos output_file copy_mode fs
             = (Done msgs, fs')"
    if "1 \<le> to_pos \<and> to_pos \<le> int (length (parse_frames content))"
    using assms(1,2,5) ok r that by (auto simp: move_frames_def Let_def)
  have a: "to_pos = int (length (parse_frames content)) + 1 \<longrightarrow>
           move_frames input_file from_positions to_pos output_file copy_mode fs
             = (Exit (ToOutOfRange to_pos (length (parse_frames content))), fs)"
  proof
    assume "to_pos = int (length (parse_frames content)) + 1"
    then have "to_pos < 1 \<or> int (length (parse_frames content)) < to_pos" by simp
    then show "move_frames input_file from_positions to_pos output_file copy_mode fs
             = (Exit (ToOutOfRange to_pos (length (parse_frames content))), fs)"
      by (rule out)
  qed
  have d: "(\<exists>e fs'. move_frames input_file from_positions to_pos output_file copy_mode fs
             = (Exit e, fs'))
          \<longleftrightarrow> to_pos < 1 \<or> int (length (parse_frames content)) < to_pos"
  proof
    assume "\<exists>e fs'. move_frames input_file from_positions to_pos output_file copy_mode fs
             = (Exit e, fs')"
    then show "to_pos < 1 \<or> int (length (parse_frames content)) < to_pos"
      using inside by fastforce
  next
    assume "to_pos < 1 \<or> int (length (parse_frames content)) < to_pos"
    then show "\<exists>e fs'. move_frames input_file from_positions to_pos output_file copy_mode fs
             = (Exit e, fs')"
      using out by blast
  qed
  from a out inside d show ?thesis by blast
qed

theorem same_file_append_position_rejected_witness:
  "files one_file ''a.tex'' = Some three_frames_doc
   \<and> parse_frames three_frames_doc \<noteq> []
   \<and> (1::int) \<le> int (length (parse_frames three_frames_doc))
   \<and> (4::int) = int (length (parse_frames three_frames_doc)) + 1
   \<and> move_frames ''a.tex'' [1] 4 None False one_file
       = (Exit (ToOutOfRange 4 (length (parse_frames three_frames_doc))), one_file)
   \<and> move_frames ''a.tex'' [1] 0 None False one_file
       = (Exit (ToOutOfRange 0 (length (parse_frames three_frames_doc))), one_file)
   \<and> (3::int) \<le> int (length (parse_frames three_frames_doc))
   \<and> (\<exists>msgs fs'. move_frames ''a.tex'' [1] 3 None False one_file = (Done msgs, fs'))
   \<and> (\<nexists>e fs'. move_frames ''a.tex'' [1] 3 None False one_file = (Exit e, fs'))"
proof -
  have n: "parse_frames three_frames_doc \<noteq> []" by (simp add: three_frames_doc_parse)
  have v: "\<forall>p \<in> set [1::int]. 1 \<le> p \<and> p \<le> int (length (parse_frames three_frames_doc))"
    by (simp add: three_frames_doc_length)
  have l: "int (length (parse_frames three_frames_doc)) = 3"
    by (simp add: three_frames_doc_length)
  have ne: "[1::int] \<noteq> []" by simp
  have o: "(None :: path option) = None \<or> None = Some ''a.tex''" by simp
  note t = same_file_append_position_rejected [OF one_file_a n v ne o, where copy_mode = False]
  have r4: "move_frames ''a.tex'' [1] 4 None False one_file
       = (Exit (ToOutOfRange 4 (length (parse_frames three_frames_doc))), one_file)"
    using t [of 4] l by simp
  have r0: "move_frames ''a.tex'' [1] 0 None False one_file
       = (Exit (ToOutOfRange 0 (length (parse_frames three_frames_doc))), one_file)"
    using t [of 0] l by simp
  have r3: "\<exists>msgs fs'. move_frames ''a.tex'' [1] 3 None False one_file = (Done msgs, fs')"
    using t [of 3] l by simp
  have e3: "\<nexists>e fs'. move_frames ''a.tex'' [1] 3 None False one_file = (Exit e, fs')"
    using t [of 3] l by simp
  from one_file_a n l r4 r0 r3 e3 show ?thesis by simp
qed

text \<open>
  C3 as stated fails: the document has three blocks, position 4 is one past the last
  block and is not a removed position, and the move of block 1 to position 4 is rejected.
\<close>

theorem same_file_append_position_counterexample:
  "length (parse_frames three_frames_doc) = 3
   \<and> (4::int) \<notin> set [1]
   \<and> move_frames ''a.tex'' [1] 4 None False one_file = (Exit (ToOutOfRange 4 3), one_file)"
proof -
  have v: "first_out_of_range (parse_frames three_frames_doc) [1] = None"
    by (simp add: first_out_of_range_None three_frames_doc_length)
  have n: "parse_frames three_frames_doc \<noteq> []" "length (parse_frames three_frames_doc) = 3"
    by (simp_all add: three_frames_doc_parse)
  show ?thesis
    unfolding move_frames_def Let_def one_file_a v option.case
    by (simp add: n)
qed

text \<open>
  C2, as amended. In a cross-file move or copy with a validated destination position
  \<open>1 \<le> to_pos \<le> N + 1\<close>, the text written to the destination is the destination's lines
  with the lines of the combined source text put in at the offset \<open>k\<close>, where \<open>k\<close> is the
  start of the span at \<open>to_pos\<close> when \<open>to_pos \<le> N\<close>, the end of the last span when
  \<open>to_pos = N + 1\<close> and the destination has a block, and the number of lines of the
  destination (its end) when it has no block.
\<close>

theorem cross_file_insertion_offset:
  assumes "files fs input_file = Some content"
    and "parse_frames content \<noteq> []"
    and "\<forall>p \<in> set from_positions. 1 \<le> p \<and> p \<le> int (length (parse_frames content))"
    and "from_positions \<noteq> []"
    and "out \<noteq> input_file"
    and "files fs out = Some dest_content"
    and "1 \<le> to_pos" and "to_pos \<le> int (length (parse_frames dest_content)) + 1"
  shows "let dest_frames = parse_frames dest_content;
             dest_lines = split_lines dest_content;
             payload = split_lines (join_lines
                         (map (\<lambda>pos. span_text (parse_frames content ! nat (pos - 1)))
                            from_positions));
             k = (if to_pos \<le> int (length dest_frames)
                  then span_start (dest_frames ! nat (to_pos - 1))
                  else if dest_frames \<noteq> [] then span_end (last dest_frames)
                  else length dest_lines)
         in files (snd (move_frames input_file from_positions to_pos (Some out) copy_mode fs)) out
              = Some (join_lines (take k dest_lines @ payload @ drop k dest_lines))"
proof -
  have ok: "first_out_of_range (parse_frames content) from_positions = None"
    using assms(3) by (simp add: first_out_of_range_None)
  obtain r where r: "from_range_str from_positions = Some r"
    using assms(4) from_range_str_Some by blast
  show ?thesis
    using assms(1,2,5,6,7,8) ok r
    by (simp add: move_frames_def Let_def cross_new_dest_lines_def cross_insert_at_def
          write_text_files)
qed

theorem cross_file_insertion_offset_witness:
  "files two_files ''a.tex'' = Some three_frames_doc
   \<and> parse_frames three_frames_doc \<noteq> []
   \<and> (1::int) \<le> int (length (parse_frames three_frames_doc))
   \<and> ''b.tex'' \<noteq> ''a.tex''
   \<and> files two_files ''b.tex'' = Some ''x''
   \<and> (1::int) \<le> int (length (parse_frames ''x'')) + 1
   \<and> files (snd (move_frames ''a.tex'' [1] 1 (Some ''b.tex'') False two_files)) ''b.tex''
       = Some (join_lines [''x'', shorthand_frame ''A''])"
proof -
  have n: "parse_frames three_frames_doc \<noteq> []" by (simp add: three_frames_doc_parse)
  have v: "\<forall>p \<in> set [1::int]. 1 \<le> p \<and> p \<le> int (length (parse_frames three_frames_doc))"
    by (simp add: three_frames_doc_length)
  have d: "''b.tex'' \<noteq> ''a.tex''" by simp
  have t: "(1::int) \<le> int (length (parse_frames ''x'')) + 1" by simp
  have p: "split_lines (join_lines (map (\<lambda>pos. span_text (parse_frames three_frames_doc ! nat (pos - 1))) [1::int]))
      = [shorthand_frame ''A'']"
    by (simp add: three_frames_doc_parse span_text_def split_lines_single
          shorthand_frame_no_newline)
  have "files (snd (move_frames ''a.tex'' [1] 1 (Some ''b.tex'') False two_files)) ''b.tex''
       = Some (join_lines [''x'', shorthand_frame ''A''])"
    using cross_file_insertion_offset [OF two_files_a n v _ d two_files_b _ t, of False]
    unfolding Let_def p
    by (simp add: plain_x_parse del: join_lines.simps)
  with two_files_a n d two_files_b show ?thesis
    by (simp add: three_frames_doc_length plain_x_parse)
qed

text \<open>
  C2 as stated fails: the destination \<^verbatim>\<open>x\<close> has no block, and the insertion offset is 1
  (the end of the document), not 0: the frame is written after the line \<^verbatim>\<open>x\<close>.
\<close>

theorem cross_file_empty_destination_counterexample:
  "parse_frames ''x'' = []
   \<and> cross_insert_at (parse_frames ''x'') (split_lines ''x'') 1 = 1
   \<and> cross_insert_at (parse_frames ''x'') (split_lines ''x'') 1 \<noteq> 0
   \<and> files (snd (move_frames ''a.tex'' [1] 1 (Some ''b.tex'') True two_files)) ''b.tex''
       = Some (join_lines [''x'', shorthand_frame ''A''])
   \<and> files (snd (move_frames ''a.tex'' [1] 1 (Some ''b.tex'') True two_files)) ''b.tex''
       \<noteq> Some (join_lines [shorthand_frame ''A'', ''x''])"
proof -
  have t: "map (\<lambda>pos. span_text (parse_frames three_frames_doc ! nat (pos - 1))) [1]
      = [shorthand_frame ''A'']"
    by (simp add: three_frames_doc_parse span_text_def)
  have v: "first_out_of_range (parse_frames three_frames_doc) [1] = None"
    by (simp add: first_out_of_range_None three_frames_doc_length)
  have n: "parse_frames three_frames_doc \<noteq> []"
    by (simp add: three_frames_doc_parse)
  have c: "cross_insert_at [] [''x''] 1 = 1"
    by (simp add: cross_insert_at_def)
  have d: "cross_new_dest_lines [] [''x''] 1 (join_lines [shorthand_frame ''A''])
      = [''x'', shorthand_frame ''A'']"
    by (simp add: cross_new_dest_lines_def c split_lines_single shorthand_frame_no_newline)
  have m: "move_frames ''a.tex'' [1] 1 (Some ''b.tex'') True two_files =
     (Done [Inserted (Single 1) 1 ''b.tex''],
      write_text ''b.tex'' (join_lines [''x'', shorthand_frame ''A'']) two_files)"
    unfolding move_frames_def Let_def two_files_a t v option.case
    by (simp add: n two_files_b plain_x_parse d del: join_lines.simps)
  have ne: "join_lines [''x'', shorthand_frame ''A''] \<noteq> join_lines [shorthand_frame ''A'', ''x'']"
    by (simp add: shorthand_frame_def backslash_def)
  show ?thesis
    unfolding m using ne
    by (simp add: plain_x_parse c write_text_files del: join_lines.simps)
qed

text \<open>
  C1. The code at a failing input: the document has the frames A, B and C and the line
  \<^verbatim>\<open>\section{X}\<close> between A and B. The in-place move of the blocks 1-2 to position 2 cuts
  the whole run from A to B out and puts back the texts of A and B only: the line between
  them is in the document before and not in the document written.
\<close>

theorem in_place_move_loses_line_between_frames:
  "move_frames ''a.tex'' [1, 2] 2 None False one_file =
     (Done [Moved (Span 1 2) 2 ''a.tex''],
      write_text ''a.tex''
        (join_lines [shorthand_frame ''C'', shorthand_frame ''A'', shorthand_frame ''B''])
        one_file)
   \<and> section_line \<in> set (split_lines three_frames_doc)
   \<and> section_line \<notin> set [shorthand_frame ''C'', shorthand_frame ''A'', shorthand_frame ''B'']"
proof -
  have sp: "split_lines (join_lines [shorthand_frame ''A'', shorthand_frame ''B''])
      = [shorthand_frame ''A'', shorthand_frame ''B'']"
    by (rule split_join_lines) (simp_all add: shorthand_frame_no_newline)
  have s: "span_start (parse_frames three_frames_doc ! nat ([1, 2] ! 0 - 1)) = 0"
    and e: "span_end (parse_frames three_frames_doc ! nat (last [1, 2] - 1)) = 3"
    by (simp_all add: three_frames_doc_parse span_start_def span_end_def)
  have l: "take 0 (split_lines three_frames_doc) @ drop 3 (split_lines three_frames_doc)
      = [shorthand_frame ''C'']"
    by (simp add: three_frames_doc_lines)
  have i: "same_file_insert_at (parse_frames three_frames_doc) [1, 2] 2 0 3
      [shorthand_frame ''C''] = 1"
    by (simp add: same_file_insert_at_def three_frames_doc_parse)
  have fl: "in_place_final_lines (parse_frames three_frames_doc) [1, 2] 2
       (split_lines three_frames_doc)
       (join_lines [shorthand_frame ''A'', shorthand_frame ''B''])
     = [shorthand_frame ''C'', shorthand_frame ''A'', shorthand_frame ''B'']"
    unfolding in_place_final_lines_def Let_def sp s e l
    by (simp add: i py_upto_nat py_from_nat)
  have t: "map (\<lambda>pos. span_text (parse_frames three_frames_doc ! nat (pos - 1))) [1, 2]
      = [shorthand_frame ''A'', shorthand_frame ''B'']"
    by (simp add: three_frames_doc_parse span_text_def)
  have v: "first_out_of_range (parse_frames three_frames_doc) [1, 2] = None"
    by (simp add: first_out_of_range_None three_frames_doc_length)
  have n: "parse_frames three_frames_doc \<noteq> []"
    by (simp add: three_frames_doc_parse)
  have m: "move_frames ''a.tex'' [1, 2] 2 None False one_file =
     (Done [Moved (Span 1 2) 2 ''a.tex''],
      write_text ''a.tex''
        (join_lines [shorthand_frame ''C'', shorthand_frame ''A'', shorthand_frame ''B''])
        one_file)"
    unfolding move_frames_def Let_def one_file_a t v fl option.case
    by (simp add: n three_frames_doc_length del: join_lines.simps)
  have x: "section_line \<notin> set [shorthand_frame ''C'', shorthand_frame ''A'', shorthand_frame ''B'']"
    by (simp add: section_line_def shorthand_frame_def)
  show ?thesis
    using m x by (simp add: three_frames_doc_lines del: join_lines.simps)
qed

text \<open>
  The cross-file move of the same two blocks removes them from the source one by one, and
  the line between them stays in the source.
\<close>

lemma cross_file_move_keeps_line_between_frames:
  "files (snd (move_frames ''a.tex'' [1, 2] 1 (Some ''b.tex'') False two_files)) ''a.tex''
     = Some (join_lines [section_line, shorthand_frame ''C''])"
proof -
  have t: "map (\<lambda>pos. span_text (parse_frames three_frames_doc ! nat (pos - 1))) [1, 2]
      = [shorthand_frame ''A'', shorthand_frame ''B'']"
    by (simp add: three_frames_doc_parse span_text_def)
  have v: "first_out_of_range (parse_frames three_frames_doc) [1, 2] = None"
    by (simp add: first_out_of_range_None three_frames_doc_length)
  have n: "parse_frames three_frames_doc \<noteq> []"
    by (simp add: three_frames_doc_parse)
  have r: "remove_spans (parse_frames three_frames_doc) (split_lines three_frames_doc)
             (rev [1, 2]) = [section_line, shorthand_frame ''C'']"
    by (simp add: three_frames_doc_parse three_frames_doc_lines)
  show ?thesis
    unfolding move_frames_def Let_def two_files_a t v r option.case
    by (simp add: n two_files_b plain_x_parse write_text_files del: join_lines.simps)
qed

subsection \<open>Range tokens\<close>





























lemma digit_char_0_1: "digit_char 0 = CHR ''0''" "digit_char (Suc 0) = CHR ''1''"
  by code_simp+

lemma decimal_power10: "decimal (10 ^ k) = CHR ''1'' # replicate k (CHR ''0'')"
proof (induction k)
  case 0
  show ?case by (subst decimal.simps) (simp add: digit_char_0_1)
next
  case (Suc k)
  have big: "\<not> (10::nat) ^ Suc k < 10" by simp
  have d: "(10::nat) ^ Suc k div 10 = 10 ^ k" and m: "(10::nat) ^ Suc k mod 10 = 0"
    by simp_all
  have "decimal (10 ^ Suc k) = decimal (10 ^ Suc k div 10) @ [digit_char (10 ^ Suc k mod 10)]"
    using big by (subst decimal.simps) (simp only: if_False)
  then have "decimal (10 ^ Suc k) = decimal (10 ^ k) @ [CHR ''0'']"
    by (simp only: d m digit_char_0_1)
  with Suc show ?case by (simp add: replicate_append_same)
qed

lemma decimal_power10_length: "length (decimal (10 ^ k)) = Suc k"
  by (simp add: decimal_power10)










subsection \<open>Error exits\<close>

lemma move_frames_Exit:
  assumes "move_frames input_file ps to_pos output_file copy_mode fs = (Exit e, fs')"
  shows "fs' = fs \<and>
    (case e of
       NoFramesFound p \<Rightarrow> p = input_file \<and> (\<exists>c. files fs p = Some c \<and> parse_frames c = [])
     | FromOutOfRange pos n \<Rightarrow>
         (\<exists>c. files fs input_file = Some c \<and> n = length (parse_frames c))
         \<and> pos \<in> set ps \<and> (pos < 1 \<or> int n < pos)
     | ToOutOfRange t n \<Rightarrow>
         t = to_pos \<and> (t < 1 \<or> int n < t) \<and>
         (if output_file \<noteq> None \<and> output_file \<noteq> Some input_file
          then \<exists>d. files fs (the output_file) = Some d \<and> n = length (parse_frames d) + 1
          else \<exists>c. files fs input_file = Some c \<and> n = length (parse_frames c))
     | OutputFileMissing p \<Rightarrow> output_file = Some p \<and> p \<noteq> input_file \<and> files fs p = None
     | _ \<Rightarrow> False)"
  using assms
  by (auto simp: move_frames_def Let_def split: option.splits if_splits
           dest: first_out_of_range_Some)

lemma delete_frames_Exit:
  assumes "delete_frames input_file ps fs = (Exit e, fs')"
  shows "fs' = fs \<and>
    (case e of
       NoFramesFound p \<Rightarrow> p = input_file \<and> (\<exists>c. files fs p = Some c \<and> parse_frames c = [])
     | FromOutOfRange pos n \<Rightarrow>
         (\<exists>c. files fs input_file = Some c \<and> n = length (parse_frames c))
         \<and> pos \<in> set ps \<and> (pos < 1 \<or> int n < pos)
     | _ \<Rightarrow> False)"
  using assms
  by (auto simp: delete_frames_def Let_def split: option.splits if_splits
           dest: first_out_of_range_Some)








section \<open>The span finder\<close>

subsection \<open>The patterns exclude one another\<close>

lemma starts_with_Cons:
  "starts_with (c # cs) s = (case s of [] \<Rightarrow> False | x # t \<Rightarrow> x = c \<and> starts_with cs t)"
  by (cases s) (auto simp: starts_with_def)

lemma starts_with_Nil: "starts_with [] s"
  by (simp add: starts_with_def)

lemma end_frame_not_comment: "is_end_frame l \<Longrightarrow> \<not> is_comment l"
  by (auto simp: is_end_frame_def is_comment_def match_ws_def starts_with_Cons backslash_def
           split: list.splits)

lemma shorthand_not_comment: "is_frame_shorthand l \<Longrightarrow> \<not> is_comment l"
  by (auto simp: is_frame_shorthand_def is_comment_def match_ws_def starts_with_Cons
           backslash_def split: list.splits)

lemma begin_frame_not_comment: "is_begin_frame l \<Longrightarrow> \<not> is_comment l"
  by (auto simp: is_begin_frame_def is_comment_def match_ws_def starts_with_Cons
           backslash_def split: list.splits)

lemma end_frame_not_begin: "is_end_frame l \<Longrightarrow> \<not> is_begin_frame l"
  by (auto simp: is_end_frame_def is_begin_frame_def match_ws_def starts_with_Cons
           split: list.splits)

lemma dropWhile_all: "\<forall>c \<in> set l. P c \<Longrightarrow> dropWhile P l = []"
  by (induction l) auto

lemma blank_not_comment: "is_blank l \<Longrightarrow> \<not> is_comment l"
  by (simp add: is_blank_def is_comment_def match_ws_def dropWhile_all starts_with_def)

subsection \<open>The back-scan over comment lines\<close>

lemma back_scan_le: "back_scan lines i \<le> i"
  by (induction i) auto

lemma back_scan_comments: "back_scan lines i \<le> j \<Longrightarrow> j < i \<Longrightarrow> is_comment (lines ! j)"
proof (induction i)
  case 0
  then show ?case by simp
next
  case (Suc k)
  show ?case
  proof (cases "is_comment (lines ! k)")
    case True
    with Suc show ?thesis by (cases "j = k") auto
  next
    case False
    with Suc.prems show ?thesis by simp
  qed
qed

lemma back_scan_stop:
  "0 < back_scan lines i \<Longrightarrow> \<not> is_comment (lines ! (back_scan lines i - 1))"
  by (induction i) auto

lemma back_scan_ge:
  "b \<le> i \<Longrightarrow> b = 0 \<or> \<not> is_comment (lines ! (b - 1)) \<Longrightarrow> b \<le> back_scan lines i"
proof (induction i)
  case 0
  then show ?case by simp
next
  case (Suc k)
  show ?case
  proof (cases "b = Suc k")
    case True
    with Suc.prems show ?thesis by auto
  next
    case False
    with Suc show ?thesis by auto
  qed
qed

subsection \<open>The frames of the main loop\<close>

lemma parse_loop_frames:
  "f \<in> set (parse_loop lines i acc) \<Longrightarrow>
     f \<in> set acc \<or> (\<exists>j. i \<le> j \<and> frame_at lines j f)"
proof (induction lines i acc rule: parse_loop.induct)
  case (1 lines i frames)
  show ?case
  proof (cases "i < length lines")
    case False
    with "1.prems" show ?thesis by (simp add: parse_loop.simps)
  next
    case True
    note lt = this
    show ?thesis
    proof (cases "is_againframe (lines ! i)")
      case True
      with lt "1.prems" have "f \<in> set (parse_loop lines (i + 1) frames)"
        by (subst (asm) parse_loop.simps) simp
      with "1.IH"(1) [OF lt refl True] show ?thesis
        by (auto intro: Suc_leD)
    next
      case False
      note na = this
      show ?thesis
      proof (cases "is_begin_frame (lines ! i)")
        case True
        let ?s = "back_scan lines i" and ?e = "find_end lines (i + 1) 1"
        let ?f = "(?s, ?e, join_lines (slice lines ?s ?e))"
        from lt na True "1.prems" have "f \<in> set (parse_loop lines ?e (frames @ [?f]))"
          by (subst (asm) parse_loop.simps) (simp add: Let_def)
        with "1.IH"(2) [OF lt refl na True refl refl refl]
        have "f \<in> set (frames @ [?f]) \<or> (\<exists>j\<ge>?e. frame_at lines j f)" by simp
        moreover have "frame_at lines i ?f" using lt na True by (simp add: frame_at_def)
        moreover have "i \<le> ?e" using find_end_ge [of "i + 1" lines 1] by simp
        ultimately show ?thesis by (auto intro: order_trans)
      next
        case False
        note nb = this
        show ?thesis
        proof (cases "is_frame_shorthand (lines ! i)")
          case True
          let ?s = "back_scan lines i"
          let ?f = "(?s, i + 1, join_lines (slice lines ?s (i + 1)))"
          from lt na nb True "1.prems" have "f \<in> set (parse_loop lines (i + 1) (frames @ [?f]))"
            by (subst (asm) parse_loop.simps) (simp add: Let_def)
          with "1.IH"(3) [OF lt refl na nb True refl refl]
          have "f \<in> set (frames @ [?f]) \<or> (\<exists>j\<ge>i + 1. frame_at lines j f)" by simp
          moreover have "frame_at lines i ?f" using lt na nb True by (simp add: frame_at_def)
          ultimately show ?thesis by (auto intro: Suc_leD)
        next
          case False
          with lt na nb "1.prems" have "f \<in> set (parse_loop lines (i + 1) frames)"
            by (subst (asm) parse_loop.simps) simp
          with "1.IH"(4) [OF lt refl na nb False] show ?thesis
            by (auto intro: Suc_leD)
        qed
      qed
    qed
  qed
qed

lemma parse_frames_frame_at:
  "f \<in> set (parse_frames content) \<Longrightarrow> \<exists>j. frame_at (split_lines content) j f"
  using parse_loop_frames [of f "split_lines content" 0 "[]"]
  by (auto simp: parse_frames_def)

subsection \<open>The search for the end of a block\<close>

lemma slice_Cons: "a < j \<Longrightarrow> a < length xs \<Longrightarrow> slice xs a j = xs ! a # slice xs (Suc a) j"
proof -
  assume "a < j" and "a < length xs"
  then have "a < length (take j xs)" by simp
  from Cons_nth_drop_Suc [OF this] \<open>a < j\<close> show ?thesis
    by (simp add: slice_def)
qed

lemma find_end_stop:
  "\<not> (end_idx < length lines \<and> depth > 0) \<Longrightarrow> find_end lines end_idx depth = end_idx"
  by (subst find_end.simps) auto

lemma slice_empty: "slice xs a a = []"
  by (simp add: slice_def)

lemma find_end_depth:
  "a \<le> length L \<Longrightarrow>
     a \<le> find_end L a d \<and> find_end L a d \<le> length L
     \<and> (\<forall>j. a \<le> j \<and> j < find_end L a d \<longrightarrow>
            0 < int d + sum_list (map nesting_change (slice L a j)))
     \<and> (int d + sum_list (map nesting_change (slice L a (find_end L a d))) = 0
        \<or> find_end L a d = length L)"
proof (induction L a d rule: find_end.induct)
  case (1 lines end_idx depth)
  show ?case
  proof (cases "end_idx < length lines \<and> depth > 0")
    case False
    then have "find_end lines end_idx depth = end_idx" by (rule find_end_stop)
    with False "1.prems" show ?thesis by (auto simp: slice_empty)
  next
    case True
    define d' where "d' = (if is_begin_frame (lines ! end_idx) then depth + 1
                          else if is_end_frame (lines ! end_idx) then depth - 1 else depth)"
    have fe: "find_end lines end_idx depth = find_end lines (end_idx + 1) d'"
      using True by (subst find_end.simps) (simp add: d'_def)
    have d': "int d' = int depth + nesting_change (lines ! end_idx)"
      using True by (auto simp: d'_def nesting_change_def)
    have ih: "end_idx + 1 \<le> find_end lines (end_idx + 1) d'
        \<and> find_end lines (end_idx + 1) d' \<le> length lines
        \<and> (\<forall>j. end_idx + 1 \<le> j \<and> j < find_end lines (end_idx + 1) d' \<longrightarrow>
              0 < int d' + sum_list (map nesting_change (slice lines (end_idx + 1) j)))
        \<and> (int d' + sum_list (map nesting_change
               (slice lines (end_idx + 1) (find_end lines (end_idx + 1) d'))) = 0
           \<or> find_end lines (end_idx + 1) d' = length lines)"
    proof (cases "is_begin_frame (lines ! end_idx)")
      case b: True
      with True "1.IH"(1) [OF True b] show ?thesis by (simp add: d'_def)
    next
      case nb: False
      show ?thesis
      proof (cases "is_end_frame (lines ! end_idx)")
        case e: True
        with True nb "1.IH"(2) [OF True nb e] show ?thesis by (simp add: d'_def)
      next
        case ne: False
        with True nb "1.IH"(3) [OF True nb ne] show ?thesis by (simp add: d'_def)
      qed
    qed
    have step: "sum_list (map nesting_change (slice lines end_idx j))
        = nesting_change (lines ! end_idx)
          + sum_list (map nesting_change (slice lines (end_idx + 1) j))"
      if "end_idx < j" for j
      using that True by (simp add: slice_Cons)
    have a: "\<forall>j. end_idx \<le> j \<and> j < find_end lines (end_idx + 1) d' \<longrightarrow>
              0 < int depth + sum_list (map nesting_change (slice lines end_idx j))"
    proof (intro allI impI)
      fix j assume j: "end_idx \<le> j \<and> j < find_end lines (end_idx + 1) d'"
      show "0 < int depth + sum_list (map nesting_change (slice lines end_idx j))"
      proof (cases "j = end_idx")
        case True
        with \<open>end_idx < length lines \<and> depth > 0\<close> show ?thesis by (simp add: slice_empty)
      next
        case False
        with j have "end_idx + 1 \<le> j" by simp
        with j ih have "0 < int d' + sum_list (map nesting_change (slice lines (end_idx + 1) j))"
          by blast
        with step [of j] False j d' show ?thesis by simp
      qed
    qed
    have b: "int depth + sum_list (map nesting_change
               (slice lines end_idx (find_end lines (end_idx + 1) d'))) = 0
           \<or> find_end lines (end_idx + 1) d' = length lines"
      using ih step [of "find_end lines (end_idx + 1) d'"] d' by auto
    from ih a b show ?thesis unfolding fe by simp
  qed
qed

lemma find_end_last:
  "a \<le> length L \<Longrightarrow> 0 < d \<Longrightarrow> find_end L a d < length L \<Longrightarrow>
     is_end_frame (L ! (find_end L a d - 1))"
proof (induction L a d rule: find_end.induct)
  case (1 lines end_idx depth)
  show ?case
  proof (cases "end_idx < length lines")
    case False
    then have "find_end lines end_idx depth = end_idx" by (simp add: find_end_stop)
    with False "1.prems" show ?thesis by simp
  next
    case True
    with "1.prems" have c: "end_idx < length lines \<and> depth > 0" by simp
    define d' where "d' = (if is_begin_frame (lines ! end_idx) then depth + 1
                          else if is_end_frame (lines ! end_idx) then depth - 1 else depth)"
    have fe: "find_end lines end_idx depth = find_end lines (end_idx + 1) d'"
      using c by (subst find_end.simps) (simp add: d'_def)
    show ?thesis
    proof (cases "d' = 0")
      case True
      then have "find_end lines (end_idx + 1) d' = end_idx + 1"
        by (simp add: find_end_stop)
      moreover from True c have "is_end_frame (lines ! end_idx)"
        by (auto simp: d'_def split: if_splits)
      ultimately show ?thesis unfolding fe by simp
    next
      case False
      then have pos: "0 < d'" by simp
      have lt: "find_end lines (end_idx + 1) d' < length lines"
        using "1.prems"(3) unfolding fe .
      have le: "end_idx + 1 \<le> length lines" using c by simp
      have "is_end_frame (lines ! (find_end lines (end_idx + 1) d' - 1))"
      proof (cases "is_begin_frame (lines ! end_idx)")
        case b: True
        with "1.IH"(1) [OF c b le] pos lt show ?thesis by (simp add: d'_def)
      next
        case nb: False
        show ?thesis
        proof (cases "is_end_frame (lines ! end_idx)")
          case e: True
          with "1.IH"(2) [OF c nb e le] nb pos lt show ?thesis by (simp add: d'_def)
        next
          case ne: False
          with "1.IH"(3) [OF c nb ne le] nb pos lt show ?thesis by (simp add: d'_def)
        qed
      qed
      then show ?thesis unfolding fe .
    qed
  qed
qed

subsection \<open>The spans are in order and do not overlap\<close>

lemma sorted_wrt_pairwise:
  "sorted_wrt P xs \<Longrightarrow> x \<in> set xs \<Longrightarrow> y \<in> set xs \<Longrightarrow> x = y \<or> P x y \<or> P y x"
  by (induction xs) auto

lemma parse_loop_ordered:
  "sorted_wrt (\<lambda>f g. span_end f \<le> span_start g) acc \<Longrightarrow>
   \<forall>f \<in> set acc. span_end f \<le> b \<Longrightarrow> b \<le> i \<Longrightarrow>
   (i < length lines \<longrightarrow> b = 0 \<or> \<not> is_comment (lines ! (b - 1))) \<Longrightarrow>
   sorted_wrt (\<lambda>f g. span_end f \<le> span_start g) (parse_loop lines i acc)"
proof (induction lines i acc arbitrary: b rule: parse_loop.induct)
  case (1 lines i frames)
  show ?case
  proof (cases "i < length lines")
    case False
    with "1.prems" show ?thesis by (simp add: parse_loop.simps)
  next
    case True
    note lt = this
    with "1.prems" have stop: "b = 0 \<or> \<not> is_comment (lines ! (b - 1))" by simp
    have later: "Suc i < length lines \<longrightarrow> b = 0 \<or> \<not> is_comment (lines ! (b - 1))"
      using stop by simp
    have start: "b \<le> back_scan lines i"
      using "1.prems"(3) stop by (rule back_scan_ge)
    show ?thesis
    proof (cases "is_againframe (lines ! i)")
      case True
      have "sorted_wrt (\<lambda>f g. span_end f \<le> span_start g) (parse_loop lines (i + 1) frames)"
        using "1.prems" later by (intro "1.IH"(1) [OF lt refl True, of b]) auto
      with lt True show ?thesis by (subst parse_loop.simps) simp
    next
      case False
      note na = this
      show ?thesis
      proof (cases "is_begin_frame (lines ! i)")
        case True
        let ?s = "back_scan lines i" and ?e = "find_end lines (i + 1) 1"
        let ?f = "(?s, ?e, join_lines (slice lines ?s ?e))"
        have ie: "i + 1 \<le> ?e" by (rule find_end_ge)
        have "sorted_wrt (\<lambda>f g. span_end f \<le> span_start g) (parse_loop lines ?e (frames @ [?f]))"
        proof (rule "1.IH"(2) [OF lt refl na True refl refl refl, of ?e])
          show "sorted_wrt (\<lambda>f g. span_end f \<le> span_start g) (frames @ [?f])"
            using "1.prems"(1,2) start
            by (auto simp: sorted_wrt_append span_start_def span_end_def)
          show "\<forall>f \<in> set (frames @ [?f]). span_end f \<le> ?e"
            using "1.prems"(2,3) ie by (auto simp: span_end_def)
          show "?e \<le> ?e" by simp
          show "?e < length lines \<longrightarrow> ?e = 0 \<or> \<not> is_comment (lines ! (?e - 1))"
            using find_end_last [of "i + 1" lines 1] lt end_frame_not_comment by auto
        qed
        with lt na True show ?thesis by (subst parse_loop.simps) (simp add: Let_def)
      next
        case False
        note nb = this
        show ?thesis
        proof (cases "is_frame_shorthand (lines ! i)")
          case True
          let ?s = "back_scan lines i"
          let ?f = "(?s, i + 1, join_lines (slice lines ?s (i + 1)))"
          have "sorted_wrt (\<lambda>f g. span_end f \<le> span_start g)
                  (parse_loop lines (i + 1) (frames @ [?f]))"
          proof (rule "1.IH"(3) [OF lt refl na nb True refl refl, of "i + 1"])
            show "sorted_wrt (\<lambda>f g. span_end f \<le> span_start g) (frames @ [?f])"
              using "1.prems"(1,2) start
              by (auto simp: sorted_wrt_append span_start_def span_end_def)
            show "\<forall>f \<in> set (frames @ [?f]). span_end f \<le> i + 1"
              using "1.prems"(2,3) by (auto simp: span_end_def)
            show "i + 1 \<le> i + 1" by simp
            show "i + 1 < length lines \<longrightarrow> i + 1 = 0 \<or> \<not> is_comment (lines ! (i + 1 - 1))"
              using True shorthand_not_comment by simp
          qed
          with lt na nb True show ?thesis by (subst parse_loop.simps) (simp add: Let_def)
        next
          case False
          have "sorted_wrt (\<lambda>f g. span_end f \<le> span_start g) (parse_loop lines (i + 1) frames)"
            using "1.prems" later by (intro "1.IH"(4) [OF lt refl na nb False, of b]) auto
          with lt na nb False show ?thesis by (subst parse_loop.simps) simp
        qed
      qed
    qed
  qed
qed

lemma parse_frames_ordered:
  "sorted_wrt (\<lambda>f g. span_end f \<le> span_start g) (parse_frames content)"
  unfolding parse_frames_def
  by (rule parse_loop_ordered [of "[]" 0]) simp_all

lemma frame_at_span:
  assumes "frame_at lines j f"
  shows "span_start f = back_scan lines j" and "j < span_end f" and "span_end f \<le> length lines"
    and "span_text f = join_lines (slice lines (span_start f) (span_end f))"
    and "is_begin_frame (lines ! j) \<Longrightarrow> span_end f = find_end lines (j + 1) 1"
    and "is_begin_frame (lines ! j) \<or> is_frame_shorthand (lines ! j)"
proof -
  have ge: "j + 1 \<le> find_end lines (j + 1) 1" by (rule find_end_ge)
  have le: "find_end lines (j + 1) 1 \<le> length lines"
    using assms find_end_depth [of "j + 1" lines 1] by (simp add: frame_at_def)
  show "span_start f = back_scan lines j" and "j < span_end f"
    and "span_end f \<le> length lines"
    and "span_text f = join_lines (slice lines (span_start f) (span_end f))"
    and "is_begin_frame (lines ! j) \<Longrightarrow> span_end f = find_end lines (j + 1) 1"
    and "is_begin_frame (lines ! j) \<or> is_frame_shorthand (lines ! j)"
    using assms ge le
    by (auto simp: frame_at_def span_start_def span_end_def span_text_def split: if_splits)
qed

subsection \<open>Two more example documents\<close>

lemma begin_line_class:
  "\<not> is_againframe begin_line" "is_begin_frame begin_line" "\<not> is_comment begin_line"
  by (simp_all add: line_class_defs begin_line_def not_space_backslash)
     (simp_all add: backslash_def)

lemma end_line_class:
  "\<not> is_againframe end_line" "\<not> is_begin_frame end_line" "is_end_frame end_line"
  "\<not> is_frame_shorthand end_line" "\<not> is_comment end_line"
  by (simp_all add: line_class_defs end_line_def not_space_backslash)
     (simp_all add: backslash_def)

lemma plain_line_class:
  "\<not> is_againframe ''x''" "\<not> is_begin_frame ''x''" "\<not> is_end_frame ''x''"
  "\<not> is_frame_shorthand ''x''" "\<not> is_comment ''x''"
  "\<not> is_againframe ''y''" "\<not> is_begin_frame ''y''" "\<not> is_end_frame ''y''"
  "\<not> is_frame_shorthand ''y''" "\<not> is_comment ''y''"
  "\<not> is_againframe ''z''" "\<not> is_begin_frame ''z''" "\<not> is_end_frame ''z''"
  "\<not> is_frame_shorthand ''z''" "\<not> is_comment ''z''"
  "\<not> is_againframe ''''" "\<not> is_begin_frame ''''" "\<not> is_end_frame ''''"
  "\<not> is_frame_shorthand ''''" "\<not> is_comment ''''"
  by (simp_all add: line_class_defs re_space_def backslash_def)

lemma comment_line_class:
  "\<not> is_againframe (CHR ''%'' # l)" "\<not> is_begin_frame (CHR ''%'' # l)"
  "\<not> is_end_frame (CHR ''%'' # l)" "\<not> is_frame_shorthand (CHR ''%'' # l)"
  "is_comment (CHR ''%'' # l)"
  by (simp_all add: line_class_defs re_space_def backslash_def)

lemma no_newline_lines:
  "newline \<notin> set begin_line" "newline \<notin> set end_line" "newline \<notin> set (shorthand_frame x) \<longleftrightarrow> newline \<notin> set x"
  by (simp_all add: begin_line_def end_line_def shorthand_frame_def newline_def backslash_def)

lemma commented_doc_lines: "split_lines commented_doc = commented_lines"
  unfolding commented_doc_def
  by (rule split_join_lines) (simp_all add: commented_lines_def no_newline_lines, simp_all add: newline_def)

lemma nested_doc_lines: "split_lines nested_doc = nested_lines"
  unfolding nested_doc_def
  by (rule split_join_lines) (simp_all add: nested_lines_def no_newline_lines, simp_all add: newline_def)

lemma commented_doc_parse:
  "parse_frames commented_doc =
     [(2, 7, join_lines [''% c1'', ''% c2'', begin_line, ''x'', end_line]),
      (7, 9, join_lines [''% s'', shorthand_frame ''B''])]"
  by (simp add: parse_frames_def commented_doc_lines commented_lines_def parse_loop.simps
        find_end.simps begin_line_class end_line_class plain_line_class comment_line_class
        shorthand_frame_class slice_def Let_def del: join_lines.simps)

lemma nested_doc_parse:
  "parse_frames nested_doc =
     [(0, 6, join_lines [begin_line, begin_line, ''x'', end_line, ''y'', end_line])]"
  by (simp add: parse_frames_def nested_doc_lines nested_lines_def parse_loop.simps
        find_end.simps begin_line_class end_line_class plain_line_class
        slice_def Let_def del: join_lines.simps)

text \<open>
  Every frame that \<^verbatim>\<open>parse_frames\<close> yields has an opening line \<open>i\<close> inside its span, in
  the \<^verbatim>\<open>begin\<close>/\<^verbatim>\<open>end\<close> form or in the one-line form, such that: a run of comment lines that
  reaches up to the opening line lies inside the span; a line before the opening line
  that is not a comment, a blank line in particular, lies before the span with everything
  above it; and the text of the frame, which is what is deleted or moved, is the lines of
  the span.
\<close>

lemma span_comment_run:
  assumes "f \<in> set (parse_frames content)"
  shows "\<exists>i. i < length (split_lines content)
       \<and> (is_begin_frame (split_lines content ! i) \<or> is_frame_shorthand (split_lines content ! i))
       \<and> span_start f \<le> i \<and> i < span_end f
       \<and> (\<forall>j<i. (\<forall>k. j \<le> k \<and> k < i \<longrightarrow> is_comment (split_lines content ! k))
                 \<longrightarrow> span_start f \<le> j)
       \<and> (\<forall>j<i. \<not> is_comment (split_lines content ! j) \<longrightarrow> j < span_start f)
       \<and> (\<forall>j<i. is_blank (split_lines content ! j) \<longrightarrow> j < span_start f)
       \<and> span_text f = join_lines (slice (split_lines content) (span_start f) (span_end f))"
proof -
  let ?L = "split_lines content"
  from assms obtain i where fa: "frame_at ?L i f"
    using parse_frames_frame_at by blast
  note sp = frame_at_span [OF fa]
  have lt: "i < length ?L" using fa by (simp add: frame_at_def)
  have le: "span_start f \<le> i" using sp(1) back_scan_le by simp
  have inside: "is_comment (?L ! j)" if "span_start f \<le> j" and "j < i" for j
    using that sp(1) back_scan_comments by simp
  have stop: "\<not> is_comment (?L ! (span_start f - 1))" if "0 < span_start f"
    using that sp(1) back_scan_stop [of ?L i] by simp
  have run: "span_start f \<le> j"
    if "j < i" and "\<forall>k. j \<le> k \<and> k < i \<longrightarrow> is_comment (?L ! k)" for j
  proof (rule ccontr)
    assume "\<not> span_start f \<le> j"
    then have "0 < span_start f" and "j \<le> span_start f - 1" and "span_start f - 1 < i"
      using le by auto
    with that(2) stop show False by blast
  qed
  have out: "j < span_start f" if "j < i" and "\<not> is_comment (?L ! j)" for j
    using that inside [of j] by (cases "j < span_start f") auto
  from lt sp(6) le sp(2) run out sp(4) show ?thesis
    using blank_not_comment by blast
qed

lemma span_comment_run_example:
  "(2, 7, join_lines [''% c1'', ''% c2'', begin_line, ''x'', end_line])
     \<in> set (parse_frames commented_doc)
   \<and> (\<exists>i. i < length commented_lines
       \<and> (is_begin_frame (commented_lines ! i) \<or> is_frame_shorthand (commented_lines ! i))
       \<and> 2 \<le> i \<and> i < 7
       \<and> (\<forall>j<i. (\<forall>k. j \<le> k \<and> k < i \<longrightarrow> is_comment (commented_lines ! k)) \<longrightarrow> 2 \<le> j)
       \<and> (\<forall>j<i. is_blank (commented_lines ! j) \<longrightarrow> j < 2))
   \<and> is_blank (commented_lines ! 1) \<and> is_comment (commented_lines ! 0)
   \<and> is_comment (commented_lines ! 2) \<and> is_comment (commented_lines ! 3)"
proof -
  let ?f = "(2::nat, 7::nat, join_lines [''% c1'', ''% c2'', begin_line, ''x'', end_line])"
  have m: "?f \<in> set (parse_frames commented_doc)"
    by (simp add: commented_doc_parse del: join_lines.simps)
  have c: "is_blank (commented_lines ! 1)" "is_comment (commented_lines ! 0)"
    "is_comment (commented_lines ! 2)" "is_comment (commented_lines ! 3)"
    by (simp_all add: commented_lines_def is_blank_def comment_line_class)
  from span_comment_run [OF m] obtain i where
    "i < length (split_lines commented_doc)
       \<and> (is_begin_frame (split_lines commented_doc ! i)
          \<or> is_frame_shorthand (split_lines commented_doc ! i))
       \<and> span_start ?f \<le> i \<and> i < span_end ?f
       \<and> (\<forall>j<i. (\<forall>k. j \<le> k \<and> k < i \<longrightarrow> is_comment (split_lines commented_doc ! k))
                 \<longrightarrow> span_start ?f \<le> j)
       \<and> (\<forall>j<i. \<not> is_comment (split_lines commented_doc ! j) \<longrightarrow> j < span_start ?f)
       \<and> (\<forall>j<i. is_blank (split_lines commented_doc ! j) \<longrightarrow> j < span_start ?f)"
    by blast
  then have "i < length commented_lines
       \<and> (is_begin_frame (commented_lines ! i) \<or> is_frame_shorthand (commented_lines ! i))
       \<and> 2 \<le> i \<and> i < 7
       \<and> (\<forall>j<i. (\<forall>k. j \<le> k \<and> k < i \<longrightarrow> is_comment (commented_lines ! k)) \<longrightarrow> 2 \<le> j)
       \<and> (\<forall>j<i. is_blank (commented_lines ! j) \<longrightarrow> j < 2)"
    by (simp add: commented_doc_lines span_start_def span_end_def)
  with m c show ?thesis by blast
qed

text \<open>
  Every frame that \<^verbatim>\<open>parse_frames\<close> yields has an opening line \<open>i\<close> inside its span
  (the first line of the span that is not an absorbed comment), and when that line is a
  \<^verbatim>\<open>\begin{frame}\<close> line the span runs on while the nesting depth
  is positive: it ends after the line that brings the depth back to zero, or at the end of
  the document. No other frame of the result overlaps the span, so a nested pair inside it
  is not a span of its own.
\<close>

lemma span_nesting_extent:
  assumes "f \<in> set (parse_frames content)"
  shows "\<exists>i. i < length (split_lines content)
       \<and> (is_begin_frame (split_lines content ! i) \<or> is_frame_shorthand (split_lines content ! i))
       \<and> span_start f \<le> i \<and> i < span_end f \<and> span_end f \<le> length (split_lines content)
       \<and> (\<forall>j. span_start f \<le> j \<and> j < i \<longrightarrow> is_comment (split_lines content ! j))
       \<and> (is_begin_frame (split_lines content ! i) \<longrightarrow>
            (\<forall>j. i < j \<and> j < span_end f \<longrightarrow>
                 0 < depth_after (slice (split_lines content) (i + 1) j))
            \<and> (depth_after (slice (split_lines content) (i + 1) (span_end f)) = 0
               \<or> span_end f = length (split_lines content)))
       \<and> (\<forall>g \<in> set (parse_frames content).
             g = f \<or> span_end g \<le> span_start f \<or> span_end f \<le> span_start g)"
proof -
  let ?L = "split_lines content"
  from assms obtain i where fa: "frame_at ?L i f"
    using parse_frames_frame_at by blast
  note sp = frame_at_span [OF fa]
  have lt: "i < length ?L" using fa by (simp add: frame_at_def)
  have le: "span_start f \<le> i" using sp(1) back_scan_le by simp
  have depth: "(\<forall>j. i < j \<and> j < span_end f \<longrightarrow> 0 < depth_after (slice ?L (i + 1) j))
       \<and> (depth_after (slice ?L (i + 1) (span_end f)) = 0 \<or> span_end f = length ?L)"
    if b: "is_begin_frame (?L ! i)"
  proof -
    have e: "span_end f = find_end ?L (i + 1) 1" using sp(5) b by simp
    from lt have "i + 1 \<le> length ?L" by simp
    from find_end_depth [OF this, of 1] show ?thesis
      unfolding e depth_after_def by auto
  qed
  have apart: "g = f \<or> span_end g \<le> span_start f \<or> span_end f \<le> span_start g"
    if "g \<in> set (parse_frames content)" for g
    using sorted_wrt_pairwise [OF parse_frames_ordered that assms] by blast
  have inside: "is_comment (?L ! j)" if "span_start f \<le> j \<and> j < i" for j
    using that sp(1) back_scan_comments [of ?L i j] by simp
  from lt sp(6) le sp(2,3) inside depth apart show ?thesis by blast
qed

lemma span_nesting_extent_example:
  "parse_frames nested_doc
     = [(0, 6, join_lines [begin_line, begin_line, ''x'', end_line, ''y'', end_line])]
   \<and> (\<exists>i. i < length nested_lines
       \<and> (is_begin_frame (nested_lines ! i) \<or> is_frame_shorthand (nested_lines ! i))
       \<and> i < 6
       \<and> (is_begin_frame (nested_lines ! i) \<longrightarrow>
            (\<forall>j. i < j \<and> j < 6 \<longrightarrow> 0 < depth_after (slice nested_lines (i + 1) j))
            \<and> (depth_after (slice nested_lines (i + 1) 6) = 0 \<or> 6 = length nested_lines)))
   \<and> is_begin_frame (nested_lines ! 1) \<and> is_end_frame (nested_lines ! 3)"
proof -
  let ?f = "(0::nat, 6::nat, join_lines [begin_line, begin_line, ''x'', end_line, ''y'', end_line])"
  have m: "?f \<in> set (parse_frames nested_doc)"
    by (simp add: nested_doc_parse del: join_lines.simps)
  have c: "is_begin_frame (nested_lines ! 1)" "is_end_frame (nested_lines ! 3)"
    by (simp_all add: nested_lines_def begin_line_class end_line_class)
  from span_nesting_extent [OF m] obtain i where
    "i < length (split_lines nested_doc)
       \<and> (is_begin_frame (split_lines nested_doc ! i)
          \<or> is_frame_shorthand (split_lines nested_doc ! i))
       \<and> span_start ?f \<le> i \<and> i < span_end ?f \<and> span_end ?f \<le> length (split_lines nested_doc)
       \<and> (is_begin_frame (split_lines nested_doc ! i) \<longrightarrow>
            (\<forall>j. i < j \<and> j < span_end ?f \<longrightarrow>
                 0 < depth_after (slice (split_lines nested_doc) (i + 1) j))
            \<and> (depth_after (slice (split_lines nested_doc) (i + 1) (span_end ?f)) = 0
               \<or> span_end ?f = length (split_lines nested_doc)))"
    by blast
  then have "i < length nested_lines
       \<and> (is_begin_frame (nested_lines ! i) \<or> is_frame_shorthand (nested_lines ! i))
       \<and> i < 6
       \<and> (is_begin_frame (nested_lines ! i) \<longrightarrow>
            (\<forall>j. i < j \<and> j < 6 \<longrightarrow> 0 < depth_after (slice nested_lines (i + 1) j))
            \<and> (depth_after (slice nested_lines (i + 1) 6) = 0 \<or> 6 = length nested_lines))"
    by (simp add: nested_doc_lines span_start_def span_end_def)
  with c show ?thesis
    using nested_doc_parse by blast
qed

subsection \<open>A comment between two moved blocks\<close>

lemma separated_comment_doc_lines:
  "split_lines separated_comment_doc = separated_comment_lines"
  unfolding separated_comment_doc_def
  by (rule split_join_lines)
     (simp_all add: separated_comment_lines_def shorthand_frame_no_newline, simp_all add: newline_def)

lemma separated_comment_doc_parse:
  "parse_frames separated_comment_doc =
     [(0, 1, shorthand_frame ''A''), (3, 4, shorthand_frame ''B''),
      (4, 5, shorthand_frame ''C'')]"
  by (simp add: parse_frames_def separated_comment_doc_lines separated_comment_lines_def
        parse_loop.simps shorthand_frame_class plain_line_class comment_line_class
        slice_def Let_def)

lemma separated_comment_file_a: "files separated_comment_file ''a.tex'' = Some separated_comment_doc"
  by (simp add: separated_comment_file_def)

text \<open>
  C7. The code at a failing input: the document has the frame A, the comment
  \<^verbatim>\<open>% note\<close>, a blank line, and the frames B and C. The comment is separated from the block B
  by the blank line and lies outside every span. The in-place move of the blocks 1-2 to
  position 2 cuts the whole run from A to B out and puts back the texts of A and B only:
  the comment is not left behind, it is in the document before and not in the document
  written.
\<close>

theorem in_place_move_loses_separated_comment:
  "parse_frames separated_comment_doc =
     [(0, 1, shorthand_frame ''A''), (3, 4, shorthand_frame ''B''),
      (4, 5, shorthand_frame ''C'')]
   \<and> split_lines separated_comment_doc ! 1 = ''% note''
   \<and> is_comment (split_lines separated_comment_doc ! 1)
   \<and> split_lines separated_comment_doc ! 2 = ''''
   \<and> move_frames ''a.tex'' [1, 2] 2 None False separated_comment_file =
     (Done [Moved (Span 1 2) 2 ''a.tex''],
      write_text ''a.tex''
        (join_lines [shorthand_frame ''C'', shorthand_frame ''A'', shorthand_frame ''B''])
        separated_comment_file)
   \<and> ''% note'' \<notin> set [shorthand_frame ''C'', shorthand_frame ''A'', shorthand_frame ''B'']"
proof -
  have sp: "split_lines (join_lines [shorthand_frame ''A'', shorthand_frame ''B''])
      = [shorthand_frame ''A'', shorthand_frame ''B'']"
    by (rule split_join_lines) (simp_all add: shorthand_frame_no_newline)
  have s: "span_start (parse_frames separated_comment_doc ! nat ([1, 2] ! 0 - 1)) = 0"
    and e: "span_end (parse_frames separated_comment_doc ! nat (last [1, 2] - 1)) = 4"
    by (simp_all add: separated_comment_doc_parse span_start_def span_end_def)
  have l: "take 0 (split_lines separated_comment_doc) @ drop 4 (split_lines separated_comment_doc)
      = [shorthand_frame ''C'']"
    by (simp add: separated_comment_doc_lines separated_comment_lines_def)
  have i: "same_file_insert_at (parse_frames separated_comment_doc) [1, 2] 2 0 4
      [shorthand_frame ''C''] = 1"
    by (simp add: same_file_insert_at_def separated_comment_doc_parse)
  have fl: "in_place_final_lines (parse_frames separated_comment_doc) [1, 2] 2
       (split_lines separated_comment_doc)
       (join_lines [shorthand_frame ''A'', shorthand_frame ''B''])
     = [shorthand_frame ''C'', shorthand_frame ''A'', shorthand_frame ''B'']"
    unfolding in_place_final_lines_def Let_def sp s e l
    by (simp add: i py_upto_nat py_from_nat)
  have t: "map (\<lambda>pos. span_text (parse_frames separated_comment_doc ! nat (pos - 1))) [1, 2]
      = [shorthand_frame ''A'', shorthand_frame ''B'']"
    by (simp add: separated_comment_doc_parse span_text_def)
  have len: "int (length (parse_frames separated_comment_doc)) = 3"
    by (simp add: separated_comment_doc_parse)
  have v: "first_out_of_range (parse_frames separated_comment_doc) [1, 2] = None"
    by (simp add: first_out_of_range_None len)
  have n: "parse_frames separated_comment_doc \<noteq> []"
    by (simp add: separated_comment_doc_parse)
  have m: "move_frames ''a.tex'' [1, 2] 2 None False separated_comment_file =
     (Done [Moved (Span 1 2) 2 ''a.tex''],
      write_text ''a.tex''
        (join_lines [shorthand_frame ''C'', shorthand_frame ''A'', shorthand_frame ''B''])
        separated_comment_file)"
    unfolding move_frames_def Let_def separated_comment_file_a t v fl option.case
    by (simp add: n len del: join_lines.simps)
  have c: "split_lines separated_comment_doc ! 1 = ''% note''"
    "is_comment (split_lines separated_comment_doc ! 1)"
    "split_lines separated_comment_doc ! 2 = ''''"
    by (simp_all add: separated_comment_doc_lines separated_comment_lines_def
          comment_line_class)
  have x: "''% note'' \<notin> set [shorthand_frame ''C'', shorthand_frame ''A'', shorthand_frame ''B'']"
    by (simp add: shorthand_frame_def backslash_def)
  from separated_comment_doc_parse c m x show ?thesis by (intro conjI)
qed

text \<open>
  The deletion of the same two blocks removes them one by one and leaves the comment and
  the blank line behind.
\<close>

lemma delete_keeps_separated_comment:
  "delete_frames ''a.tex'' [1, 2] separated_comment_file =
     (Done [Deleted (Span 1 2) ''a.tex''],
      write_text ''a.tex'' (join_lines [''% note'', '''', shorthand_frame ''C''])
        separated_comment_file)"
proof -
  have len: "int (length (parse_frames separated_comment_doc)) = 3"
    by (simp add: separated_comment_doc_parse)
  have v: "first_out_of_range (parse_frames separated_comment_doc) [1, 2] = None"
    by (simp add: first_out_of_range_None len)
  have n: "parse_frames separated_comment_doc \<noteq> []"
    by (simp add: separated_comment_doc_parse)
  have r: "remove_spans (parse_frames separated_comment_doc)
             (split_lines separated_comment_doc) (rev [1, 2])
           = [''% note'', '''', shorthand_frame ''C'']"
    by (simp add: separated_comment_doc_parse separated_comment_doc_lines
          separated_comment_lines_def)
  show ?thesis
    unfolding delete_frames_def Let_def separated_comment_file_a v r option.case
    by (simp add: n del: join_lines.simps)
qed

text \<open>
  So does the in-place move of the block B alone, to the position after C: the comment and
  the blank line stay where they are.
\<close>

lemma single_move_keeps_separated_comment:
  "move_frames ''a.tex'' [2] 3 None False separated_comment_file =
     (Done [Moved (Single 2) 3 ''a.tex''],
      write_text ''a.tex''
        (join_lines [shorthand_frame ''A'', ''% note'', '''', shorthand_frame ''C'',
                     shorthand_frame ''B''])
        separated_comment_file)"
proof -
  have sp: "split_lines (join_lines [shorthand_frame ''B'']) = [shorthand_frame ''B'']"
    by (rule split_join_lines) (simp_all add: shorthand_frame_no_newline)
  have s: "span_start (parse_frames separated_comment_doc ! nat ([2] ! 0 - 1)) = 3"
    and e: "span_end (parse_frames separated_comment_doc ! nat (last [2] - 1)) = 4"
    by (simp_all add: separated_comment_doc_parse span_start_def span_end_def)
  have l: "take 3 (split_lines separated_comment_doc) @ drop 4 (split_lines separated_comment_doc)
      = [shorthand_frame ''A'', ''% note'', '''', shorthand_frame ''C'']"
    by (simp add: separated_comment_doc_lines separated_comment_lines_def)
  have i: "same_file_insert_at (parse_frames separated_comment_doc) [2] 3 3 1
      [shorthand_frame ''A'', ''% note'', '''', shorthand_frame ''C''] = 4"
    by (simp add: same_file_insert_at_def separated_comment_doc_parse)
  have fl: "in_place_final_lines (parse_frames separated_comment_doc) [2] 3
       (split_lines separated_comment_doc) (join_lines [shorthand_frame ''B''])
     = [shorthand_frame ''A'', ''% note'', '''', shorthand_frame ''C'', shorthand_frame ''B'']"
    unfolding in_place_final_lines_def Let_def sp s e l
    by (simp add: i py_upto_nat py_from_nat)
  have t: "map (\<lambda>pos. span_text (parse_frames separated_comment_doc ! nat (pos - 1))) [2]
      = [shorthand_frame ''B'']"
    by (simp add: separated_comment_doc_parse span_text_def)
  have len: "int (length (parse_frames separated_comment_doc)) = 3"
    by (simp add: separated_comment_doc_parse)
  have v: "first_out_of_range (parse_frames separated_comment_doc) [2] = None"
    by (simp add: first_out_of_range_None len)
  have n: "parse_frames separated_comment_doc \<noteq> []"
    by (simp add: separated_comment_doc_parse)
  show ?thesis
    unfolding move_frames_def Let_def separated_comment_file_a t v fl option.case
    by (simp add: n len del: join_lines.simps)
qed

section \<open>The parser on lists\<close>

subsection \<open>The inner loops on lists\<close>

lemma scan_end_0: "scan_end ls 0 = 0"
  by (cases ls) simp_all

lemma scan_end_le: "scan_end ls d \<le> length ls"
  by (induction ls arbitrary: d) auto

lemma find_end_scan: "a \<le> length L \<Longrightarrow> find_end L a d = a + scan_end (drop a L) d"
proof (induction L a d rule: find_end.induct)
  case (1 lines end_idx depth)
  show ?case
  proof (cases "end_idx < length lines \<and> depth > 0")
    case False
    then have "find_end lines end_idx depth = end_idx" by (rule find_end_stop)
    moreover have "scan_end (drop end_idx lines) depth = 0"
      using False "1.prems" by (cases "depth = 0") (auto simp: scan_end_0)
    ultimately show ?thesis by simp
  next
    case True
    define d' where "d' = (if is_begin_frame (lines ! end_idx) then depth + 1
                          else if is_end_frame (lines ! end_idx) then depth - 1 else depth)"
    have fe: "find_end lines end_idx depth = find_end lines (end_idx + 1) d'"
      using True by (subst find_end.simps) (simp add: d'_def)
    have le: "end_idx + 1 \<le> length lines" using True by simp
    have ih: "find_end lines (end_idx + 1) d' = end_idx + 1 + scan_end (drop (end_idx + 1) lines) d'"
    proof (cases "is_begin_frame (lines ! end_idx)")
      case b: True
      with "1.IH"(1) [OF True b le] show ?thesis by (simp add: d'_def)
    next
      case nb: False
      show ?thesis
      proof (cases "is_end_frame (lines ! end_idx)")
        case e: True
        with "1.IH"(2) [OF True nb e le] nb show ?thesis by (simp add: d'_def)
      next
        case ne: False
        with "1.IH"(3) [OF True nb ne le] nb show ?thesis by (simp add: d'_def)
      qed
    qed
    have "drop end_idx lines = lines ! end_idx # drop (end_idx + 1) lines"
      using True by (simp add: Cons_nth_drop_Suc)
    then have "scan_end (drop end_idx lines) depth = Suc (scan_end (drop (end_idx + 1) lines) d')"
      using True by (simp add: d'_def)
    with fe ih show ?thesis by simp
  qed
qed

lemma trailing_comments_Nil: "trailing_comments [] = []"
  by (simp add: trailing_comments_def)

lemma trailing_comments_snoc:
  "trailing_comments (xs @ [l]) = (if is_comment l then trailing_comments xs @ [l] else [])"
  by (simp add: trailing_comments_def)

lemma back_scan_trailing:
  "i \<le> length L \<Longrightarrow> back_scan L i = i - length (trailing_comments (take i L))"
proof (induction i)
  case 0
  then show ?case by simp
next
  case (Suc k)
  then have "take (Suc k) L = take k L @ [L ! k]" by (simp add: take_Suc_conv_app_nth)
  with Suc show ?case by (simp add: trailing_comments_snoc)
qed

lemma split_comments: "before_comments xs @ trailing_comments xs = xs"
proof -
  have "rev (before_comments xs @ trailing_comments xs)
      = takeWhile is_comment (rev xs) @ dropWhile is_comment (rev xs)"
    by (simp add: before_comments_def trailing_comments_def)
  then have "rev (before_comments xs @ trailing_comments xs) = rev xs" by simp
  then show ?thesis by (simp only: rev_is_rev_conv)
qed

lemma drop_trailing:
  "drop (length xs - length (trailing_comments xs)) xs = trailing_comments xs"
proof -
  have "length xs - length (trailing_comments xs) = length (before_comments xs)"
    using arg_cong [OF split_comments [of xs], of length] by simp
  then show ?thesis
    using split_comments [of xs] by (metis append_eq_conv_conj)
qed

subsection \<open>The main loop on lists\<close>

lemma parse_loop_frames_from:
  "parse_loop (done @ rest) (length done) acc = acc @ frames_from done rest"
proof (induction "done" rest arbitrary: acc rule: frames_from.induct)
  case (1 "done")
  show ?case by (subst parse_loop.simps) simp
next
  case (2 "done" l ls)
  let ?L = "done @ l # ls" and ?i = "length done"
  have lt: "?i < length ?L" by simp
  have li: "?L ! ?i = l" by simp
  have s: "back_scan ?L ?i = ?i - length (trailing_comments done)"
    using back_scan_trailing [of ?i ?L] by simp
  have sl: "slice ?L (?i - length (trailing_comments done)) (Suc (?i + n))
      = trailing_comments done @ l # take n ls" for n
  proof -
    have "take (Suc (?i + n)) ?L = done @ l # take n ls" by simp
    then show ?thesis
      by (simp add: slice_def drop_trailing)
  qed
  show ?case
  proof (cases "is_againframe l")
    case True
    have "parse_loop ?L ?i acc = parse_loop ?L (?i + 1) acc"
      using True lt li by (subst parse_loop.simps) simp
    also have "\<dots> = acc @ frames_from (done @ [l]) ls"
      using "2.IH"(1) [OF True, of acc] by simp
    finally show ?thesis using True by (simp add: frames_from.simps)
  next
    case False
    note na = this
    show ?thesis
    proof (cases "is_begin_frame l")
      case True
      define n where "n = scan_end ls 1"
      have nle: "n \<le> length ls" unfolding n_def by (rule scan_end_le)
      have e: "find_end ?L (Suc ?i) (Suc 0) = Suc (?i + n)"
        using find_end_scan [of "?i + 1" ?L 1] by (simp add: n_def)
      let ?f = "(?i - length (trailing_comments done), ?i + 1 + n,
                 join_lines (trailing_comments done @ l # take n ls))"
      have "parse_loop ?L ?i acc = parse_loop ?L (?i + 1 + n) (acc @ [?f])"
        using na True lt li by (subst parse_loop.simps) (simp add: Let_def s e sl)
      also have "\<dots> = parse_loop ((done @ l # take n ls) @ drop n ls)
                        (length (done @ l # take n ls)) (acc @ [?f])"
        using nle by simp
      also have "\<dots> = (acc @ [?f]) @ frames_from (done @ l # take n ls) (drop n ls)"
        using "2.IH"(2) [OF na True n_def, of "acc @ [?f]"] .
      finally show ?thesis
        using na True by (simp add: frames_from.simps n_def Let_def)
    next
      case False
      note nb = this
      show ?thesis
      proof (cases "is_frame_shorthand l")
        case True
        let ?f = "(?i - length (trailing_comments done), ?i + 1,
                   join_lines (trailing_comments done @ [l]))"
        have "parse_loop ?L ?i acc = parse_loop ?L (?i + 1) (acc @ [?f])"
          using na nb True lt li sl [of 0]
          by (subst parse_loop.simps) (simp add: Let_def s)
        also have "\<dots> = (acc @ [?f]) @ frames_from (done @ [l]) ls"
          using "2.IH"(3) [OF na nb True, of "acc @ [?f]"] by simp
        finally show ?thesis
          using na nb True by (simp add: frames_from.simps)
      next
        case False
        have "parse_loop ?L ?i acc = parse_loop ?L (?i + 1) acc"
          using na nb False lt li by (subst parse_loop.simps) simp
        also have "\<dots> = acc @ frames_from (done @ [l]) ls"
          using "2.IH"(4) [OF na nb False, of acc] by simp
        finally show ?thesis using na nb False by (simp add: frames_from.simps)
      qed
    qed
  qed
qed

lemma parse_frames_frames_from:
  "parse_frames content = frames_from [] (split_lines content)"
  using parse_loop_frames_from [of "[]" "split_lines content" "[]"]
  by (simp add: parse_frames_def)

subsection \<open>Gaps and blocks\<close>

lemma trailing_comments_append:
  "trailing_comments (xs @ ys) =
     (if \<forall>l \<in> set ys. is_comment l then trailing_comments xs @ ys else trailing_comments ys)"
proof (cases "\<forall>l \<in> set ys. is_comment l")
  case True
  then have "takeWhile is_comment (rev ys @ rev xs) = rev ys @ takeWhile is_comment (rev xs)"
    by (intro takeWhile_append2) simp
  with True show ?thesis by (simp add: trailing_comments_def)
next
  case False
  then obtain l where "l \<in> set (rev ys)" and "\<not> is_comment l" by auto
  then have "takeWhile is_comment (rev ys @ rev xs) = takeWhile is_comment (rev ys)"
    by (rule takeWhile_append1)
  with False show ?thesis by (auto simp: trailing_comments_def)
qed

lemma trailing_comments_are_comments: "l \<in> set (trailing_comments xs) \<Longrightarrow> is_comment l"
  by (auto simp: trailing_comments_def dest: set_takeWhileD)

lemma trailing_comments_last:
  "xs \<noteq> [] \<Longrightarrow> \<not> is_comment (last xs) \<Longrightarrow> trailing_comments xs = []"
  by (cases xs rule: rev_cases) (simp_all add: trailing_comments_snoc)

lemma takeWhile_dropWhile_Nil: "takeWhile P (dropWhile P xs) = []"
  by (induction xs) auto

lemma trailing_comments_before: "trailing_comments (before_comments xs) = []"
  by (simp add: trailing_comments_def before_comments_def takeWhile_dropWhile_Nil)

lemma quiet_append: "quiet (xs @ ys) \<longleftrightarrow> quiet xs \<and> quiet ys"
  by (auto simp: quiet_def)

lemma quiet_comments: "\<forall>l \<in> set xs. is_comment l \<Longrightarrow> quiet xs"
  using begin_frame_not_comment shorthand_not_comment by (auto simp: quiet_def)

lemma quiet_trailing: "quiet (trailing_comments xs)"
  by (rule quiet_comments) (simp add: trailing_comments_are_comments)

lemma quiet_before: "quiet xs \<Longrightarrow> quiet (before_comments xs)"
  using split_comments [of xs] quiet_append [of "before_comments xs" "trailing_comments xs"]
  by simp

lemma frames_from_quiet: "quiet gap \<Longrightarrow> frames_from done (gap @ rest) = frames_from (done @ gap) rest"
proof (induction gap arbitrary: "done")
  case Nil
  then show ?case by simp
next
  case (Cons l gap)
  then have "frames_from done ((l # gap) @ rest) = frames_from (done @ [l]) (gap @ rest)"
    by (auto simp: quiet_def frames_from.simps)
  also have "\<dots> = frames_from ((done @ [l]) @ gap) rest"
    using Cons by (simp add: quiet_def)
  finally show ?case by simp
qed

lemma frames_from_block:
  assumes "is_block block rest"
  shows "frames_from done (block @ rest) =
     (length done - length (trailing_comments done), length done + length block,
      join_lines (trailing_comments done @ block))
     # frames_from (done @ block) rest"
proof -
  from assms obtain l ls where b: "block = l # ls" and na: "\<not> is_againframe l"
    and c: "if is_begin_frame l then scan_end (ls @ rest) 1 = length ls
            else is_frame_shorthand l \<and> ls = []"
    by (auto simp: is_block_def)
  show ?thesis
  proof (cases "is_begin_frame l")
    case True
    with c have "scan_end (ls @ rest) 1 = length ls" by simp
    with na True show ?thesis by (simp add: b frames_from.simps Let_def)
  next
    case False
    with c na show ?thesis by (simp add: b frames_from.simps)
  qed
qed

lemma frames_from_first:
  "frames_from done rest = f # fs \<Longrightarrow>
     \<exists>gap block rest'. rest = gap @ block @ rest' \<and> quiet gap \<and> is_block block rest'
       \<and> f = (length (done @ gap) - length (trailing_comments (done @ gap)),
              length (done @ gap) + length block,
              join_lines (trailing_comments (done @ gap) @ block))
       \<and> fs = frames_from (done @ gap @ block) rest'"
proof (induction "done" rest rule: frames_from.induct)
  case (1 "done")
  then show ?case by simp
next
  case (2 "done" l ls)
  have skip: ?case
    if q: "quiet [l]" and r: "frames_from (done @ [l]) ls = f # fs"
      and ih: "frames_from (done @ [l]) ls = f # fs \<Longrightarrow>
        \<exists>gap block rest'. ls = gap @ block @ rest' \<and> quiet gap \<and> is_block block rest'
          \<and> f = (length ((done @ [l]) @ gap) - length (trailing_comments ((done @ [l]) @ gap)),
                 length ((done @ [l]) @ gap) + length block,
                 join_lines (trailing_comments ((done @ [l]) @ gap) @ block))
          \<and> fs = frames_from ((done @ [l]) @ gap @ block) rest'"
  proof -
    from ih [OF r] obtain gap block rest' where
      g: "ls = gap @ block @ rest'" "quiet gap" "is_block block rest'"
      "f = (length ((done @ [l]) @ gap) - length (trailing_comments ((done @ [l]) @ gap)),
            length ((done @ [l]) @ gap) + length block,
            join_lines (trailing_comments ((done @ [l]) @ gap) @ block))"
      "fs = frames_from ((done @ [l]) @ gap @ block) rest'"
      by blast
    have "l # ls = (l # gap) @ block @ rest'" using g(1) by simp
    moreover have "quiet (l # gap)" using q g(2) by (simp add: quiet_def)
    ultimately show ?thesis using g(3,4,5)
      by (intro exI [of _ "l # gap"] exI [of _ block] exI [of _ rest']) simp
  qed
  show ?case
  proof (cases "is_againframe l")
    case True
    with "2.prems" have r: "frames_from (done @ [l]) ls = f # fs"
      by (simp add: frames_from.simps)
    from True have q: "quiet [l]" by (simp add: quiet_def)
    show ?thesis by (rule skip [OF q r "2.IH"(1) [OF True]])
  next
    case False
    note na = this
    show ?thesis
    proof (cases "is_begin_frame l")
      case True
      define n where "n = scan_end ls 1"
      have nle: "n \<le> length ls" unfolding n_def by (rule scan_end_le)
      have n': "scan_end ls (Suc 0) = n" by (simp add: n_def)
      have blk: "is_block (l # take n ls) (drop n ls)"
        using na True nle by (simp add: is_block_def n' min_def)
      from "2.prems" na True
      have "f = (length done - length (trailing_comments done), length done + 1 + n,
                 join_lines (trailing_comments done @ l # take n ls))"
        and "fs = frames_from (done @ l # take n ls) (drop n ls)"
        by (simp_all add: frames_from.simps n_def Let_def)
      with blk nle show ?thesis
        by (intro exI [of _ "[]"] exI [of _ "l # take n ls"] exI [of _ "drop n ls"])
           (simp add: quiet_def min_def)
    next
      case False
      note nb = this
      show ?thesis
      proof (cases "is_frame_shorthand l")
        case True
        have blk: "is_block [l] ls" using na nb True by (simp add: is_block_def)
        from "2.prems" na nb True
        have "f = (length done - length (trailing_comments done), length done + 1,
                   join_lines (trailing_comments done @ [l]))"
          and "fs = frames_from (done @ [l]) ls"
          by (simp_all add: frames_from.simps)
        with blk show ?thesis
          by (intro exI [of _ "[]"] exI [of _ "[l]"] exI [of _ ls]) (simp add: quiet_def)
      next
        case False
        with "2.prems" na nb have r: "frames_from (done @ [l]) ls = f # fs"
          by (simp add: frames_from.simps)
        from nb False have q: "quiet [l]" by (simp add: quiet_def)
        show ?thesis by (rule skip [OF q r "2.IH"(4) [OF na nb False]])
      qed
    qed
  qed
qed

lemma scan_end_closed:
  "scan_end (ls @ rest) d = length ls \<Longrightarrow> rest \<noteq> [] \<Longrightarrow> scan_end (ls @ rest') d = length ls"
proof (induction ls arbitrary: d)
  case Nil
  then have "d = 0" by (cases rest) (auto split: if_splits)
  then show ?case by (simp add: scan_end_0)
next
  case (Cons l ls)
  then show ?case by (auto split: if_splits)
qed

lemma scan_end_last:
  "scan_end (ls @ rest) d = length ls \<Longrightarrow> rest \<noteq> [] \<Longrightarrow> 0 < d \<Longrightarrow>
     ls \<noteq> [] \<and> is_end_frame (last ls)"
proof (induction ls arbitrary: d)
  case Nil
  then show ?case by (cases rest) auto
next
  case (Cons l ls)
  define d' where "d' = (if is_begin_frame l then d + 1
                         else if is_end_frame l then d - 1 else d)"
  from Cons.prems have s: "scan_end (ls @ rest) d' = length ls"
    by (simp add: d'_def)
  show ?case
  proof (cases "d' = 0")
    case True
    with s have "ls = []" by (simp add: scan_end_0)
    moreover from True Cons.prems(3) have "is_end_frame l"
      by (auto simp: d'_def split: if_splits)
    ultimately show ?thesis by simp
  next
    case False
    with Cons.IH [OF s Cons.prems(2)] show ?thesis by simp
  qed
qed

lemma is_block_not_Nil: "is_block block rest \<Longrightarrow> block \<noteq> []"
  by (auto simp: is_block_def)

lemma is_block_rest: "is_block block rest \<Longrightarrow> rest \<noteq> [] \<Longrightarrow> is_block block rest'"
  unfolding is_block_def
  by (metis scan_end_closed)

lemma is_block_last:
  assumes "is_block block rest" and "rest \<noteq> []"
  shows "\<not> is_comment (last block)"
proof -
  from assms(1) obtain l ls where b: "block = l # ls"
    and c: "if is_begin_frame l then scan_end (ls @ rest) 1 = length ls
            else is_frame_shorthand l \<and> ls = []"
    by (auto simp: is_block_def)
  show ?thesis
  proof (cases "is_begin_frame l")
    case True
    with c scan_end_last [of ls rest 1] assms(2)
    have "ls \<noteq> []" and "is_end_frame (last ls)" by auto
    then show ?thesis using end_frame_not_comment by (simp add: b)
  next
    case False
    with c show ?thesis using shorthand_not_comment by (simp add: b)
  qed
qed

lemma trailing_comments_after_block:
  assumes "is_block block rest" and "rest \<noteq> []"
  shows "trailing_comments (done @ block) = []"
proof -
  have "done @ block \<noteq> []" using is_block_not_Nil [OF assms(1)] by simp
  moreover have "\<not> is_comment (last (done @ block))"
    using is_block_last [OF assms] is_block_not_Nil [OF assms(1)] by simp
  ultimately show ?thesis by (rule trailing_comments_last)
qed

lemma trailing_comments_all: "\<forall>l \<in> set xs. is_comment l \<Longrightarrow> trailing_comments xs = xs"
  using trailing_comments_append [of "[]" xs] by (simp add: trailing_comments_Nil)

lemma trailing_comments_fresh:
  "trailing_comments xs = [] \<Longrightarrow> trailing_comments (xs @ ys) = trailing_comments ys"
  by (simp add: trailing_comments_append trailing_comments_all)

lemma trailing_comments_idem: "trailing_comments (trailing_comments xs) = trailing_comments xs"
  by (rule trailing_comments_all) (simp add: trailing_comments_are_comments)

lemma frames_from_length: "length (frames_from done rest) = length (frames_from done' rest)"
proof (induction "done" rest arbitrary: done' rule: frames_from.induct)
  case (1 "done")
  show ?case by simp
next
  case (2 "done" l ls)
  show ?case
  proof (cases "is_againframe l")
    case True
    with "2.IH"(1) [OF True, of "done' @ [l]"] show ?thesis by (simp add: frames_from.simps)
  next
    case False
    note na = this
    show ?thesis
    proof (cases "is_begin_frame l")
      case True
      with na "2.IH"(2) [OF na True refl, of "done' @ l # take (scan_end ls 1) ls"]
      show ?thesis by (simp add: frames_from.simps Let_def)
    next
      case False
      note nb = this
      show ?thesis
      proof (cases "is_frame_shorthand l")
        case True
        with na nb "2.IH"(3) [OF na nb True, of "done' @ [l]"] show ?thesis
          by (simp add: frames_from.simps)
      next
        case False
        with na nb "2.IH"(4) [OF na nb False, of "done' @ [l]"] show ?thesis
          by (simp add: frames_from.simps)
      qed
    qed
  qed
qed

lemma frames_from_Nil: "frames_from done rest = [] \<Longrightarrow> frames_from done' rest = []"
  using frames_from_length [of "done" rest done'] by simp

subsection \<open>Moving the first of four frames to the third position\<close>

lemma in_place_first_to_third:
  assumes L: "lines = P0 @ S @ Mid @ Tail"
    and a: "a = (length P0, length P0 + length S, ta)"
    and d: "d = (length P0 + length S + length Mid, ed, td)"
    and S: "S \<noteq> []"
    and p: "split_lines payload = S"
  shows "in_place_final_lines [a, b, c, d] [1] 3 lines payload = P0 @ Mid @ S @ Tail"
proof -
  obtain sb eb tb where b: "b = (sb, eb, tb)" by (cases b) auto
  obtain sc ec tc where c: "c = (sc, ec, tc)" by (cases c) auto
  have ins: "same_file_insert_at [a, b, c, d] [1] 3 (int (length P0)) (int (length S)) xs
      = int (length P0 + length Mid)" for xs
    using S by (cases S) (simp_all add: same_file_insert_at_def a b c d)
  have st: "span_start ([a, b, c, d] ! nat ([1] ! 0 - 1)) = length P0"
    and en: "span_end ([a, b, c, d] ! nat (last [1] - 1)) = length P0 + length S"
    by (simp_all add: span_start_def span_end_def a)
  have rc: "int (length P0 + length S) - int (length P0) = int (length S)" by simp
  have lw: "take (length P0) lines @ drop (length P0 + length S) lines = P0 @ Mid @ Tail"
    by (simp add: L)
  show ?thesis
    unfolding in_place_final_lines_def Let_def st en rc lw ins p
    by (simp add: py_upto_nat py_from_nat)
qed

lemma move_frames_first_to_third:
  assumes "files fs input_file = Some content"
    and "parse_frames content = [a, b, c, d]"
    and "output_file = None \<or> output_file = Some input_file"
  shows "move_frames input_file [1] 3 output_file copy_mode fs =
     (Done [Moved (Single 1) 3 input_file],
      write_text input_file
        (join_lines (in_place_final_lines [a, b, c, d] [1] 3 (split_lines content)
           (join_lines [span_text a]))) fs)"
proof -
  have v: "first_out_of_range [a, b, c, d] [1] = None"
    by (simp add: first_out_of_range_None)
  show ?thesis
    using assms(3)
    unfolding move_frames_def Let_def assms(1,2) v option.case
    by (auto simp del: join_lines.simps)
qed

text \<open>
  The lines of a document with four frames, in the order in which the parser reads them:
  gaps \<open>G0\<close> to \<open>G3\<close>, the frames \<open>A\<close> to \<open>D\<close> from their opening lines on, and the lines
  \<open>R\<close> after the last frame.
\<close>

lemma four_frames_structure:
  assumes "frames_from [] L = [a, b, c, d]"
  shows "\<exists>G0 A G1 B G2 C G3 D R.
      L = G0 @ A @ G1 @ B @ G2 @ C @ G3 @ D @ R
    \<and> quiet G0 \<and> quiet G1 \<and> quiet G2 \<and> quiet G3
    \<and> (\<forall>rest. is_block A rest) \<and> (\<forall>rest. is_block B rest) \<and> (\<forall>rest. is_block C rest)
    \<and> is_block D R
    \<and> (\<forall>done. trailing_comments (done @ A) = [])
    \<and> (\<forall>done. trailing_comments (done @ B) = [])
    \<and> (\<forall>done. trailing_comments (done @ C) = [])
    \<and> a = (length G0 - length (trailing_comments G0), length G0 + length A,
            join_lines (trailing_comments G0 @ A))
    \<and> span_text b = join_lines (trailing_comments G1 @ B)
    \<and> span_text c = join_lines (trailing_comments G2 @ C)
    \<and> d = (length (G0 @ A @ G1 @ B @ G2 @ C @ G3) - length (trailing_comments G3),
            length (G0 @ A @ G1 @ B @ G2 @ C @ G3) + length D,
            join_lines (trailing_comments G3 @ D))
    \<and> (\<forall>done. frames_from done R = [])"
proof -
  from frames_from_first [OF assms] obtain G0 A R1 where
    s1: "L = G0 @ A @ R1" "quiet G0" "is_block A R1"
      "a = (length G0 - length (trailing_comments G0), length G0 + length A,
            join_lines (trailing_comments G0 @ A))"
      "frames_from (G0 @ A) R1 = [b, c, d]"
    by auto
  from frames_from_first [OF s1(5)] obtain G1 B R2 where
    s2: "R1 = G1 @ B @ R2" "quiet G1" "is_block B R2"
      "b = (length ((G0 @ A) @ G1) - length (trailing_comments ((G0 @ A) @ G1)),
            length ((G0 @ A) @ G1) + length B,
            join_lines (trailing_comments ((G0 @ A) @ G1) @ B))"
      "frames_from ((G0 @ A) @ G1 @ B) R2 = [c, d]"
    by auto
  from frames_from_first [OF s2(5)] obtain G2 C R3 where
    s3: "R2 = G2 @ C @ R3" "quiet G2" "is_block C R3"
      "c = (length (((G0 @ A) @ G1 @ B) @ G2)
              - length (trailing_comments (((G0 @ A) @ G1 @ B) @ G2)),
            length (((G0 @ A) @ G1 @ B) @ G2) + length C,
            join_lines (trailing_comments (((G0 @ A) @ G1 @ B) @ G2) @ C))"
      "frames_from (((G0 @ A) @ G1 @ B) @ G2 @ C) R3 = [d]"
    by auto
  from frames_from_first [OF s3(5)] obtain G3 D R where
    s4: "R3 = G3 @ D @ R" "quiet G3" "is_block D R"
      "d = (length ((((G0 @ A) @ G1 @ B) @ G2 @ C) @ G3)
              - length (trailing_comments ((((G0 @ A) @ G1 @ B) @ G2 @ C) @ G3)),
            length ((((G0 @ A) @ G1 @ B) @ G2 @ C) @ G3) + length D,
            join_lines (trailing_comments ((((G0 @ A) @ G1 @ B) @ G2 @ C) @ G3) @ D))"
      "frames_from ((((G0 @ A) @ G1 @ B) @ G2 @ C) @ G3 @ D) R = []"
    by auto
  have n3: "R3 \<noteq> []" using s4(1) is_block_not_Nil [OF s4(3)] by simp
  have n2: "R2 \<noteq> []" using s3(1) is_block_not_Nil [OF s3(3)] by simp
  have n1: "R1 \<noteq> []" using s2(1) is_block_not_Nil [OF s2(3)] by simp
  have bA: "is_block A rest" for rest by (rule is_block_rest [OF s1(3) n1])
  have bB: "is_block B rest" for rest by (rule is_block_rest [OF s2(3) n2])
  have bC: "is_block C rest" for rest by (rule is_block_rest [OF s3(3) n3])
  have tA: "trailing_comments (done @ A) = []" for "done"
    by (rule trailing_comments_after_block [OF s1(3) n1])
  have tB: "trailing_comments (done @ B) = []" for "done"
    by (rule trailing_comments_after_block [OF s2(3) n2])
  have tC: "trailing_comments (done @ C) = []" for "done"
    by (rule trailing_comments_after_block [OF s3(3) n3])
  have t1: "trailing_comments ((G0 @ A) @ G1) = trailing_comments G1"
    by (rule trailing_comments_fresh) (rule tA)
  have t2: "trailing_comments (((G0 @ A) @ G1 @ B) @ G2) = trailing_comments G2"
    using trailing_comments_fresh [OF tB [of "(G0 @ A) @ G1"], of G2] by simp
  have t3: "trailing_comments ((((G0 @ A) @ G1 @ B) @ G2 @ C) @ G3) = trailing_comments G3"
    using trailing_comments_fresh [OF tC [of "((G0 @ A) @ G1 @ B) @ G2"], of G3] by simp
  have L: "L = G0 @ A @ G1 @ B @ G2 @ C @ G3 @ D @ R"
    by (simp add: s1(1) s2(1) s3(1) s4(1))
  have b: "span_text b = join_lines (trailing_comments G1 @ B)"
    unfolding s2(4) t1 by (simp add: span_text_def)
  have c: "span_text c = join_lines (trailing_comments G2 @ C)"
    unfolding s3(4) t2 by (simp add: span_text_def)
  have d: "d = (length (G0 @ A @ G1 @ B @ G2 @ C @ G3) - length (trailing_comments G3),
            length (G0 @ A @ G1 @ B @ G2 @ C @ G3) + length D,
            join_lines (trailing_comments G3 @ D))"
    unfolding s4(4) t3 by simp
  have e: "frames_from done R = []" for "done"
    by (rule frames_from_Nil [OF s4(5)])
  from L s1(2) s2(2) s3(2) s4(2) bA bB bC s4(3) tA tB tC s1(4) b c d e
  show ?thesis by blast
qed

lemma texts_gap_block:
  assumes "quiet gap" and "is_block block rest"
  shows "map span_text (frames_from done (gap @ block @ rest)) =
     join_lines (trailing_comments (done @ gap) @ block)
     # map span_text (frames_from (done @ gap @ block) rest)"
  using frames_from_quiet [OF assms(1), of "done" "block @ rest"]
    frames_from_block [OF assms(2), of "done @ gap"]
  by (simp add: span_text_def)

lemma reordered_texts:
  assumes q: "quiet G0" "quiet G1" "quiet G2" "quiet G3"
    and bA: "\<And>rest. is_block A rest" and bB: "\<And>rest. is_block B rest"
    and bC: "\<And>rest. is_block C rest" and bD: "is_block D R"
    and tA: "\<And>done. trailing_comments (done @ A) = []"
    and tB: "\<And>done. trailing_comments (done @ B) = []"
    and tC: "\<And>done. trailing_comments (done @ C) = []"
    and e: "\<And>done. frames_from done R = []"
  shows "map span_text
           (frames_from []
              (before_comments G0 @ (G1 @ B @ G2 @ C @ before_comments G3)
                 @ (trailing_comments G0 @ A) @ (trailing_comments G3 @ D @ R)))
       = [join_lines (trailing_comments G1 @ B), join_lines (trailing_comments G2 @ C),
          join_lines (trailing_comments G0 @ A), join_lines (trailing_comments G3 @ D)]"
proof -
  let ?P0 = "before_comments G0" and ?c0 = "trailing_comments G0"
  let ?P3 = "before_comments G3" and ?c3 = "trailing_comments G3"
  let ?r3 = "?c3 @ D @ R"
  let ?r2 = "(?P3 @ ?c0) @ A @ ?r3"
  let ?r1 = "G2 @ C @ ?r2"
  let ?X1 = "[] @ (?P0 @ G1) @ B"
  let ?X2 = "?X1 @ G2 @ C"
  let ?X3 = "?X2 @ (?P3 @ ?c0) @ A"
  have q01: "quiet (?P0 @ G1)" using q(1,2) by (simp add: quiet_append quiet_before)
  have q30: "quiet (?P3 @ ?c0)" using q(4) by (simp add: quiet_append quiet_before quiet_trailing)
  have c1: "trailing_comments ([] @ ?P0 @ G1) = trailing_comments G1"
    using trailing_comments_fresh [OF trailing_comments_before, of G0 G1] by simp
  have c2: "trailing_comments (?X1 @ G2) = trailing_comments G2"
    using trailing_comments_fresh [OF tB [of "[] @ ?P0 @ G1"], of G2] by simp
  have c3: "trailing_comments (?X2 @ ?P3 @ ?c0) = ?c0"
  proof -
    have "trailing_comments (?X2 @ ?P3) = []"
      using trailing_comments_fresh [OF tC [of "?X1 @ G2"], of ?P3]
      by (simp add: trailing_comments_before)
    then have "trailing_comments ((?X2 @ ?P3) @ ?c0) = trailing_comments ?c0"
      by (rule trailing_comments_fresh)
    then show ?thesis by (simp add: trailing_comments_idem)
  qed
  have c4: "trailing_comments (?X3 @ ?c3) = ?c3"
    using trailing_comments_fresh [OF tA [of "?X2 @ ?P3 @ ?c0"], of ?c3]
    by (simp add: trailing_comments_idem)
  have "map span_text (frames_from [] ((?P0 @ G1) @ B @ ?r1))
      = join_lines (trailing_comments G1 @ B) # map span_text (frames_from ?X1 ?r1)"
    using texts_gap_block [OF q01 bB, of "[]" ?r1] c1 by simp
  also have "map span_text (frames_from ?X1 ?r1)
      = join_lines (trailing_comments G2 @ C) # map span_text (frames_from ?X2 ?r2)"
    using texts_gap_block [OF q(3) bC, of ?X1 ?r2] c2 by simp
  also have "map span_text (frames_from ?X2 ?r2)
      = join_lines (?c0 @ A) # map span_text (frames_from ?X3 ?r3)"
    using texts_gap_block [OF q30 bA, of ?X2 ?r3] c3 by simp
  also have "map span_text (frames_from ?X3 ?r3)
      = join_lines (?c3 @ D) # map span_text (frames_from (?X3 @ ?c3 @ D) R)"
    using texts_gap_block [OF quiet_trailing bD, of ?X3 G3] c4 by simp
  also have "map span_text (frames_from (?X3 @ ?c3 @ D) R) = []"
    by (simp add: e)
  finally show ?thesis by simp
qed

text \<open>
  C5. In a document whose blocks are \<open>a\<close>, \<open>b\<close>, \<open>c\<close>, \<open>d\<close>, the same-file move of position
  1 to position 3 succeeds and writes a document whose blocks, in order, have the texts of
  \<open>b\<close>, \<open>c\<close>, \<open>a\<close>, \<open>d\<close>.
\<close>

theorem move_first_to_third_order:
  assumes "files fs input_file = Some content"
    and "parse_frames content = [a, b, c, d]"
    and "output_file = None \<or> output_file = Some input_file"
  shows "\<exists>content'.
      move_frames input_file [1] 3 output_file copy_mode fs
        = (Done [Moved (Single 1) 3 input_file], write_text input_file content' fs)
    \<and> map span_text (parse_frames content')
        = [span_text b, span_text c, span_text a, span_text d]"
proof -
  let ?L = "split_lines content"
  have "frames_from [] ?L = [a, b, c, d]"
    using assms(2) by (simp add: parse_frames_frames_from)
  from four_frames_structure [OF this] obtain G0 A G1 B G2 C G3 D R where
    L: "?L = G0 @ A @ G1 @ B @ G2 @ C @ G3 @ D @ R"
    and q: "quiet G0" "quiet G1" "quiet G2" "quiet G3"
    and bA: "\<And>rest. is_block A rest" and bB: "\<And>rest. is_block B rest"
    and bC: "\<And>rest. is_block C rest" and bD: "is_block D R"
    and tA: "\<And>done. trailing_comments (done @ A) = []"
    and tB: "\<And>done. trailing_comments (done @ B) = []"
    and tC: "\<And>done. trailing_comments (done @ C) = []"
    and a: "a = (length G0 - length (trailing_comments G0), length G0 + length A,
                 join_lines (trailing_comments G0 @ A))"
    and b: "span_text b = join_lines (trailing_comments G1 @ B)"
    and c: "span_text c = join_lines (trailing_comments G2 @ C)"
    and d: "d = (length (G0 @ A @ G1 @ B @ G2 @ C @ G3) - length (trailing_comments G3),
                 length (G0 @ A @ G1 @ B @ G2 @ C @ G3) + length D,
                 join_lines (trailing_comments G3 @ D))"
    and e: "\<And>done. frames_from done R = []"
    by blast
  let ?P0 = "before_comments G0" and ?c0 = "trailing_comments G0"
  let ?P3 = "before_comments G3" and ?c3 = "trailing_comments G3"
  let ?S = "?c0 @ A"
  let ?Mid = "G1 @ B @ G2 @ C @ ?P3"
  let ?Tail = "?c3 @ D @ R"
  let ?final = "?P0 @ ?Mid @ ?S @ ?Tail"
  have g0: "length G0 = length ?P0 + length ?c0"
    using arg_cong [OF split_comments [of G0], of length] by simp
  have g3: "length G3 = length ?P3 + length ?c3"
    using arg_cong [OF split_comments [of G3], of length] by simp
  have L': "?L = ?P0 @ ?S @ ?Mid @ ?Tail"
    using L split_comments [of G0] split_comments [of G3] by (metis append.assoc)
  have a': "a = (length ?P0, length ?P0 + length ?S, span_text a)"
    unfolding a by (simp add: g0 span_text_def)
  have d': "d = (length ?P0 + length ?S + length ?Mid, span_end d, span_text d)"
    unfolding d by (simp add: g0 g3 span_text_def span_end_def)
  have An: "A \<noteq> []" using bA is_block_not_Nil by blast
  have nl: "newline \<notin> set l" if "l \<in> set ?L" for l
    using that by (rule split_lines_no_newline)
  have ta: "span_text a = join_lines ?S" unfolding a by (simp add: span_text_def)
  have "split_lines (join_lines ?S) = ?S"
  proof (rule split_join_lines)
    show "?S \<noteq> []" using An by simp
    show "\<forall>l \<in> set ?S. newline \<notin> set l"
      using nl by (auto simp: L')
  qed
  then have pay: "split_lines (join_lines [span_text a]) = ?S" by (simp add: ta)
  have fin: "in_place_final_lines [a, b, c, d] [1] 3 ?L (join_lines [span_text a]) = ?final"
    using An by (intro in_place_first_to_third [OF L' a' d' _ pay]) simp
  have sj: "split_lines (join_lines ?final) = ?final"
  proof (rule split_join_lines)
    show "?final \<noteq> []" using An by simp
    show "\<forall>l \<in> set ?final. newline \<notin> set l"
      using nl by (auto simp: L')
  qed
  have td: "span_text d = join_lines (?c3 @ D)" unfolding d by (simp add: span_text_def)
  have t: "map span_text (parse_frames (join_lines ?final))
      = [span_text b, span_text c, span_text a, span_text d]"
    unfolding parse_frames_frames_from sj
    using reordered_texts [OF q bA bB bC bD tA tB tC e]
    by (simp add: b c ta td)
  have m: "move_frames input_file [1] 3 output_file copy_mode fs
      = (Done [Moved (Single 1) 3 input_file], write_text input_file (join_lines ?final) fs)"
    using move_frames_first_to_third [OF assms] by (simp only: fin)
  show ?thesis
    by (rule exI [of _ "join_lines ?final"]) (rule conjI [OF m t])
qed

lemma four_frames_doc_lines: "split_lines four_frames_doc = four_frames_lines"
  unfolding four_frames_doc_def
  by (rule split_join_lines)
     (simp_all add: four_frames_lines_def no_newline_lines section_line_def,
      simp_all add: newline_def backslash_def)

lemma four_frames_doc_parse:
  "parse_frames four_frames_doc =
     [(0, 2, join_lines [''% a'', shorthand_frame ''A'']),
      (2, 5, join_lines [begin_line, ''x'', end_line]),
      (6, 7, join_lines [shorthand_frame ''C'']),
      (7, 9, join_lines [''% d'', shorthand_frame ''D''])]"
  by (simp add: parse_frames_def four_frames_doc_lines four_frames_lines_def parse_loop.simps
        find_end.simps begin_line_class end_line_class plain_line_class comment_line_class
        shorthand_frame_class section_line_class slice_def Let_def del: join_lines.simps)

theorem move_first_to_third_order_witness:
  "files four_frames_file ''a.tex'' = Some four_frames_doc
   \<and> parse_frames four_frames_doc =
       [(0, 2, join_lines [''% a'', shorthand_frame ''A'']),
        (2, 5, join_lines [begin_line, ''x'', end_line]),
        (6, 7, join_lines [shorthand_frame ''C'']),
        (7, 9, join_lines [''% d'', shorthand_frame ''D''])]
   \<and> (\<exists>content'.
        move_frames ''a.tex'' [1] 3 None False four_frames_file
          = (Done [Moved (Single 1) 3 ''a.tex''], write_text ''a.tex'' content' four_frames_file)
      \<and> map span_text (parse_frames content')
          = [join_lines [begin_line, ''x'', end_line],
             join_lines [shorthand_frame ''C''],
             join_lines [''% a'', shorthand_frame ''A''],
             join_lines [''% d'', shorthand_frame ''D'']])"
proof -
  have f: "files four_frames_file ''a.tex'' = Some four_frames_doc"
    by (simp add: four_frames_file_def)
  from move_first_to_third_order [OF f four_frames_doc_parse, of None False]
  have "\<exists>content'.
        move_frames ''a.tex'' [1] 3 None False four_frames_file
          = (Done [Moved (Single 1) 3 ''a.tex''], write_text ''a.tex'' content' four_frames_file)
      \<and> map span_text (parse_frames content')
          = [join_lines [begin_line, ''x'', end_line],
             join_lines [shorthand_frame ''C''],
             join_lines [''% a'', shorthand_frame ''A''],
             join_lines [''% d'', shorthand_frame ''D'']]"
    by (simp add: span_text_def del: join_lines.simps)
  with f four_frames_doc_parse show ?thesis by (simp only: simp_thms)
qed

section \<open>Blocks and their spans\<close>

subsection \<open>The lines before a block\<close>

lemma begin_frame_not_againframe: "is_begin_frame l \<Longrightarrow> \<not> is_againframe l"
  by (auto simp: is_begin_frame_def is_againframe_def match_ws_def starts_with_Cons
           split: list.splits)

lemma scan_end_depth:
  "int d + sum_list (map nesting_change body) = 0 \<Longrightarrow>
   \<forall>k < length body. 0 < int d + sum_list (map nesting_change (take k body)) \<Longrightarrow>
   scan_end (body @ rest) d = length body"
proof (induction body arbitrary: d)
  case Nil
  then show ?case by (simp add: scan_end_0)
next
  case (Cons l ls)
  define d' where "d' = (if is_begin_frame l then d + 1
                         else if is_end_frame l then d - 1 else d)"
  from Cons.prems(2) have pos: "0 < d" by fastforce
  then have d': "int d' = int d + nesting_change l"
    by (auto simp: d'_def nesting_change_def)
  have a: "int d' + sum_list (map nesting_change ls) = 0"
    using Cons.prems(1) d' by simp
  have b: "\<forall>k < length ls. 0 < int d' + sum_list (map nesting_change (take k ls))"
  proof (intro allI impI)
    fix k assume "k < length ls"
    then have "Suc k < length (l # ls)" by simp
    with Cons.prems(2) have "0 < int d + sum_list (map nesting_change (take (Suc k) (l # ls)))"
      by blast
    then show "0 < int d' + sum_list (map nesting_change (take k ls))"
      using d' by simp
  qed
  from Cons.IH [OF a b] pos show ?case by (simp add: d'_def)
qed

lemma closed_body_scan: "closed_body body \<Longrightarrow> scan_end (body @ rest) 1 = length body"
  using scan_end_depth [of 1 body rest] by (simp add: closed_body_def depth_after_def)

lemma closed_body_block: "is_begin_frame l \<Longrightarrow> closed_body body \<Longrightarrow> is_block (l # body) rest"
  using closed_body_scan [of body rest]
  by (simp add: is_block_def begin_frame_not_againframe)

lemma piece_step:
  assumes "piece p"
  shows "\<exists>pre. frames_from done (p @ rest) = pre @ frames_from (done @ p) rest"
proof -
  from assms obtain l body where p: "p = l # body"
    and c: "if is_begin_frame l then closed_body body else body = []"
    by (auto simp: piece_def split: list.splits)
  show ?thesis
  proof (cases "is_begin_frame l")
    case True
    with c have "is_block p rest" by (simp add: p closed_body_block)
    from frames_from_block [OF this, of "done"] show ?thesis by simp
  next
    case False
    with c have b: "body = []" by simp
    show ?thesis
    proof (cases "\<not> is_againframe l \<and> is_frame_shorthand l")
      case True
      with False have "is_block p rest" by (simp add: p b is_block_def)
      from frames_from_block [OF this, of "done"] show ?thesis by simp
    next
      case nf: False
      with False have "quiet p" by (auto simp: p b quiet_def)
      from frames_from_quiet [OF this, of "done" rest] show ?thesis by simp
    qed
  qed
qed

lemma pieces_steps:
  "\<forall>p \<in> set ps. piece p \<Longrightarrow>
     \<exists>pre. frames_from done (concat ps @ rest) = pre @ frames_from (done @ concat ps) rest"
proof (induction ps arbitrary: "done")
  case Nil
  show ?case by simp
next
  case (Cons p ps)
  then have "piece p" by simp
  from piece_step [OF this, of "done" "concat ps @ rest"]
  obtain a where a: "frames_from done (p @ concat ps @ rest)
      = a @ frames_from (done @ p) (concat ps @ rest)" by blast
  from Cons obtain b where
    b: "frames_from (done @ p) (concat ps @ rest) = b @ frames_from ((done @ p) @ concat ps) rest"
    by fastforce
  from a b show ?case by simp
qed

subsection \<open>The span of a block\<close>

lemma sorted_single_overlap:
  assumes "sorted_wrt (\<lambda>f g. span_end f \<le> span_start g) xs"
    and "f \<in> set xs" and "span_start f < span_end f"
  shows "filter (\<lambda>g. span_start g < span_end f \<and> span_start f < span_end g) xs = [f]"
  using assms(1,2)
proof (induction xs)
  case Nil
  then show ?case by simp
next
  case (Cons a xs)
  show ?case
  proof (cases "a = f")
    case True
    from Cons.prems(1) True have "\<forall>y \<in> set xs. span_end f \<le> span_start y" by simp
    then have "filter (\<lambda>g. span_start g < span_end f \<and> span_start f < span_end g) xs = []"
      by (auto simp: filter_empty_conv)
    with True assms(3) show ?thesis by simp
  next
    case False
    with Cons.prems have m: "f \<in> set xs" and s: "sorted_wrt (\<lambda>f g. span_end f \<le> span_start g) xs"
      and "span_end a \<le> span_start f" by auto
    with Cons.IH [OF s m] show ?thesis by simp
  qed
qed

text \<open>
  A block in either form, with the comment lines straight before it, after lines that are
  whole pieces: the parser yields the span of the comments and the block, and no other
  span of the result meets these lines.
\<close>

lemma block_single_span:
  assumes ps: "\<forall>p \<in> set pieces. piece p"
    and nc: "concat pieces = [] \<or> \<not> is_comment (last (concat pieces))"
    and cs: "\<forall>c \<in> set comments. is_comment c"
    and blk: "is_block block rest"
    and nl: "\<forall>x \<in> set (concat pieces @ comments @ block @ rest). newline \<notin> set x"
  shows "filter (\<lambda>g. span_start g < length (concat pieces @ comments @ block)
                    \<and> length (concat pieces) < span_end g)
           (parse_frames (join_lines (concat pieces @ comments @ block @ rest)))
       = [(length (concat pieces), length (concat pieces @ comments @ block),
           join_lines (comments @ block))]"
proof -
  let ?P = "concat pieces"
  let ?L = "?P @ comments @ block @ rest"
  let ?f = "(length ?P, length (?P @ comments @ block), join_lines (comments @ block))"
  have ne: "block \<noteq> []" using blk by (rule is_block_not_Nil)
  then have "?L \<noteq> []" by simp
  from split_join_lines [OF this nl] have sl: "split_lines (join_lines ?L) = ?L" .
  have pf: "parse_frames (join_lines ?L) = frames_from [] ?L"
    by (simp only: parse_frames_frames_from sl)
  from pieces_steps [OF ps, of "[]" "comments @ block @ rest"]
  obtain pre where 1: "frames_from [] ?L = pre @ frames_from ?P (comments @ block @ rest)"
    by auto
  have 2: "frames_from ?P (comments @ block @ rest) = frames_from (?P @ comments) (block @ rest)"
    by (rule frames_from_quiet) (rule quiet_comments [OF cs])
  have "trailing_comments ?P = []"
  proof (cases "?P = []")
    case True
    then show ?thesis by (simp only: trailing_comments_Nil)
  next
    case False
    with nc have "\<not> is_comment (last ?P)" by blast
    with False show ?thesis by (rule trailing_comments_last)
  qed
  then have tc: "trailing_comments (?P @ comments) = comments"
    using cs by (simp add: trailing_comments_append)
  have 3: "frames_from (?P @ comments) (block @ rest)
      = ?f # frames_from ((?P @ comments) @ block) rest"
    using frames_from_block [OF blk, of "?P @ comments"] by (simp add: tc)
  have m: "?f \<in> set (parse_frames (join_lines ?L))"
    unfolding pf 1 2 3 by simp
  have lt: "span_start ?f < span_end ?f"
    using ne by (simp add: span_start_def span_end_def)
  from sorted_single_overlap [OF parse_frames_ordered m lt] show ?thesis
    by (simp add: span_start_def span_end_def)
qed

text \<open>
  The same for a block in the one-line form: with the comment lines straight before it,
  it is one span, and the only span that meets these lines.
\<close>

lemma shorthand_not_begin: "is_frame_shorthand l \<Longrightarrow> \<not> is_begin_frame l"
  by (auto simp: is_frame_shorthand_def is_begin_frame_def match_ws_def starts_with_Cons
           split: list.splits)

lemma shorthand_not_againframe: "is_frame_shorthand l \<Longrightarrow> \<not> is_againframe l"
  by (auto simp: is_frame_shorthand_def is_againframe_def match_ws_def starts_with_Cons
           split: list.splits)

lemma shorthand_block_single_span:
  assumes "\<forall>p \<in> set pieces. piece p"
    and "concat pieces = [] \<or> \<not> is_comment (last (concat pieces))"
    and "\<forall>c \<in> set comments. is_comment c"
    and "is_frame_shorthand l"
    and "\<forall>x \<in> set (concat pieces @ comments @ l # rest). newline \<notin> set x"
  shows "filter (\<lambda>g. span_start g < length (concat pieces @ comments @ [l])
                    \<and> length (concat pieces) < span_end g)
           (parse_frames (join_lines (concat pieces @ comments @ l # rest)))
       = [(length (concat pieces), length (concat pieces @ comments @ [l]),
           join_lines (comments @ [l]))]"
proof -
  have b: "is_block [l] rest"
    using assms(4) by (simp add: is_block_def shorthand_not_begin shorthand_not_againframe)
  from block_single_span [OF assms(1,2,3) b] assms(5) show ?thesis by simp
qed

text \<open>
  C8. A block in the \<^verbatim>\<open>begin\<close>/\<^verbatim>\<open>end\<close> form whose body is closed (the nesting depth stays
  positive through the body, over every nested pair, and returns to zero with its last
  line), with the comment lines straight before it, after lines that are whole pieces and
  before any lines: among the spans that \<^verbatim>\<open>parse_frames\<close> yields, exactly one meets the
  lines of the block, and it is the span from the first of the comments to the line that
  brings the depth back to zero, with these lines as its text. So the parser yields a
  span for the block, a nested pair yields none of its own, and the span ends where the
  depth returns to zero and not before.
\<close>

theorem nested_block_single_span:
  assumes "\<forall>p \<in> set pieces. piece p"
    and "concat pieces = [] \<or> \<not> is_comment (last (concat pieces))"
    and "\<forall>c \<in> set comments. is_comment c"
    and "is_begin_frame l"
    and "closed_body body"
    and "\<forall>x \<in> set (concat pieces @ comments @ l # body @ rest). newline \<notin> set x"
  shows "filter (\<lambda>g. span_start g < length (concat pieces @ comments @ l # body)
                    \<and> length (concat pieces) < span_end g)
           (parse_frames (join_lines (concat pieces @ comments @ l # body @ rest)))
       = [(length (concat pieces), length (concat pieces @ comments @ l # body),
           join_lines (comments @ l # body))]"
proof -
  have b: "is_block (l # body) rest"
    using assms(4,5) by (rule closed_body_block)
  from block_single_span [OF assms(1,2,3) b] assms(6) show ?thesis by simp
qed

lemma nested_body_closed: "closed_body [begin_line, ''x'', end_line, ''y'', end_line]"
proof -
  have s: "{0..<length [begin_line, ''x'', end_line, ''y'', end_line]} = {0, 1, 2, 3, 4}"
    by auto
  show ?thesis
    unfolding closed_body_def s
    by (simp add: depth_after_def nesting_change_def begin_line_class end_line_class
          plain_line_class)
qed

lemma framed_nested_pieces:
  "framed_nested_lines =
     concat [[shorthand_frame ''A'']] @ [''% c'']
       @ begin_line # [begin_line, ''x'', end_line, ''y'', end_line] @ [''z'']"
  by (simp add: framed_nested_lines_def)

lemma piece_shorthand: "piece [shorthand_frame x]"
  by (simp add: piece_def shorthand_frame_class)

theorem nested_block_single_span_witness:
  "piece [shorthand_frame ''A'']
   \<and> \<not> is_comment (last (concat [[shorthand_frame ''A'']]))
   \<and> is_comment ''% c''
   \<and> is_begin_frame begin_line
   \<and> closed_body [begin_line, ''x'', end_line, ''y'', end_line]
   \<and> is_begin_frame ([begin_line, ''x'', end_line, ''y'', end_line] ! 0)
   \<and> is_end_frame ([begin_line, ''x'', end_line, ''y'', end_line] ! 2)
   \<and> framed_nested_lines =
       concat [[shorthand_frame ''A'']] @ [''% c'']
         @ begin_line # [begin_line, ''x'', end_line, ''y'', end_line] @ [''z'']
   \<and> filter (\<lambda>g. span_start g < 8 \<and> 1 < span_end g) (parse_frames framed_nested_doc)
       = [(1, 8, join_lines [''% c'', begin_line, begin_line, ''x'', end_line, ''y'', end_line])]"
proof -
  have p: "\<forall>p \<in> set [[shorthand_frame ''A'']]. piece p" by (simp add: piece_shorthand)
  have n: "concat [[shorthand_frame ''A'']] = []
           \<or> \<not> is_comment (last (concat [[shorthand_frame ''A'']]))"
    by (simp add: shorthand_frame_class)
  have c: "\<forall>c \<in> set [''% c'']. is_comment c" by (simp add: comment_line_class)
  have nl: "\<forall>x \<in> set (concat [[shorthand_frame ''A'']] @ [''% c'']
              @ begin_line # [begin_line, ''x'', end_line, ''y'', end_line] @ [''z'']).
            newline \<notin> set x"
    by (simp add: no_newline_lines shorthand_frame_no_newline) (simp add: newline_def)
  have "filter (\<lambda>g. span_start g < length (concat [[shorthand_frame ''A'']] @ [''% c'']
                        @ begin_line # [begin_line, ''x'', end_line, ''y'', end_line])
                    \<and> length (concat [[shorthand_frame ''A'']]) < span_end g)
           (parse_frames (join_lines (concat [[shorthand_frame ''A'']] @ [''% c'']
              @ begin_line # [begin_line, ''x'', end_line, ''y'', end_line] @ [''z''])))
       = [(length (concat [[shorthand_frame ''A'']]),
           length (concat [[shorthand_frame ''A'']] @ [''% c'']
                     @ begin_line # [begin_line, ''x'', end_line, ''y'', end_line]),
           join_lines ([''% c''] @ begin_line # [begin_line, ''x'', end_line, ''y'', end_line]))]"
    by (rule nested_block_single_span [OF p n c begin_line_class(2) nested_body_closed nl])
  then have r: "filter (\<lambda>g. span_start g < 8 \<and> 1 < span_end g) (parse_frames framed_nested_doc)
       = [(1, 8, join_lines [''% c'', begin_line, begin_line, ''x'', end_line, ''y'', end_line])]"
    unfolding framed_nested_doc_def framed_nested_pieces
    by (simp add: eval_nat_numeral del: join_lines.simps)
  have x: "\<not> is_comment (last (concat [[shorthand_frame ''A'']]))"
    by (simp add: shorthand_frame_class)
  have y: "is_begin_frame ([begin_line, ''x'', end_line, ''y'', end_line] ! 0)"
    "is_end_frame ([begin_line, ''x'', end_line, ''y'', end_line] ! 2)"
    by (simp_all add: begin_line_class end_line_class)
  from piece_shorthand [of "''A''"] x comment_line_class(5) [of "'' c''"] begin_line_class(2)
    nested_body_closed y framed_nested_pieces r
  show ?thesis by (intro conjI)
qed

text \<open>The same document parsed by evaluation: the one-line frame and the whole block.\<close>

lemma framed_nested_doc_parse:
  "parse_frames framed_nested_doc =
     [(0, 1, shorthand_frame ''A''),
      (1, 8, join_lines [''% c'', begin_line, begin_line, ''x'', end_line, ''y'', end_line])]"
proof -
  have l: "split_lines framed_nested_doc = framed_nested_lines"
    unfolding framed_nested_doc_def
    by (rule split_join_lines)
       (simp_all add: framed_nested_lines_def no_newline_lines shorthand_frame_no_newline,
        simp_all add: newline_def)
  show ?thesis
    by (simp add: parse_frames_def l framed_nested_lines_def parse_loop.simps
        find_end.simps begin_line_class end_line_class plain_line_class comment_line_class
        shorthand_frame_class slice_def Let_def del: join_lines.simps(3))
qed

end
